theory Spec2Isabelle
  imports Main "HOL-Library.Multiset" "HOL-Library.Sublist"
begin

section \<open>The Chinese postman pipeline of postman.py\<close>

text \<open>
  The program is a Python 2.7 script over the networkx 1.x graph library. The script's own
  functions (\<open>pairs\<close>, \<open>import_csv_graph\<close>, \<open>validate_graph\<close>, \<open>odd_graph\<close>,
  \<open>edge_sum\<close>, \<open>chinese_postman_path\<close>) are translated statement by statement. The
  library objects they work on are modelled through the interface the script uses:

  \<^item> a \<open>Graph\<close> or \<open>MultiGraph\<close> is its node dictionary (node, attribute dictionary) and
    the list of its edges (endpoint, endpoint, attribute dictionary);
  \<^item> a dictionary is an association list, iterated in the order of the list (Python 2.7
    leaves the order of a dictionary open; a graph value here carries one such order);
  \<^item> an exception is a value of the type \<open>error\<close>, and a function that can raise returns
    \<open>error + 'a\<close>.
\<close>

subsection \<open>Exceptions\<close>

datatype error = IndexError | KeyError | ValueError | NetworkXError | NetworkXPointlessConcept

subsection \<open>Graphs\<close>

text \<open>
  The attribute dictionary of an edge. The script stores \<open>weight\<close> on every edge it
  adds, \<open>id\<close> on the edges of the input graph and \<open>path\<close> on the edges of the graph
  of odd nodes; an absent key is \<open>None\<close>.
\<close>

record edge_attrs =
  weight :: int
  edge_id :: "string option"
  path :: "int list option"

text \<open>The attribute dictionary of a node: the two GPS coordinates, kept as strings.\<close>

record node_attrs =
  longitude :: "string option"
  latitude :: "string option"

record graph =
  node :: "(int \<times> node_attrs) list"
  edges :: "(int \<times> int \<times> edge_attrs) list"

definition empty_graph :: graph where
  "empty_graph = \<lparr>node = [], edges = []\<rparr>"

definition no_attrs :: node_attrs where
  "no_attrs = \<lparr>longitude = None, latitude = None\<rparr>"

text \<open>\<open>graph.nodes()\<close>: the keys of the node dictionary.\<close>

definition nodes :: "graph \<Rightarrow> int list" where
  "nodes g = map fst (node g)"

text \<open>An edge joins \<open>u\<close> and \<open>v\<close> in either direction: the graphs are undirected.\<close>

definition joins :: "int \<Rightarrow> int \<Rightarrow> int \<times> int \<times> edge_attrs \<Rightarrow> bool" where
  "joins u v e = (case e of (a, b, d) \<Rightarrow> (a = u \<and> b = v) \<or> (a = v \<and> b = u))"

text \<open>\<open>graph[u][v]\<close>: the attribute dictionary of the edge, a KeyError when there is none.\<close>

definition get_edge :: "graph \<Rightarrow> int \<Rightarrow> int \<Rightarrow> error + edge_attrs" where
  "get_edge g u v =
     (case find (joins u v) (edges g) of
        None \<Rightarrow> Inl KeyError
      | Some (a, b, d) \<Rightarrow> Inr d)"

text \<open>\<open>datadict.update(attr_dict)\<close>: the keys given overwrite, the others stay.\<close>

definition update_attrs :: "edge_attrs \<Rightarrow> edge_attrs \<Rightarrow> edge_attrs" where
  "update_attrs old new =
     \<lparr>weight = weight new,
      edge_id = (case edge_id new of None \<Rightarrow> edge_id old | Some i \<Rightarrow> Some i),
      path = (case path new of None \<Rightarrow> path old | Some p \<Rightarrow> Some p)\<rparr>"

definition add_node :: "graph \<Rightarrow> int \<Rightarrow> graph" where
  "add_node g n = (if n \<in> set (nodes g) then g else g\<lparr>node := node g @ [(n, no_attrs)]\<rparr>)"

text \<open>
  \<open>Graph.add_edge(u, v, **attr)\<close>: both endpoints become nodes when they are not yet;
  an edge already there keeps its place and has its attributes updated, a new edge is
  added. There is no check on the weight or on \<open>u == v\<close>.
\<close>

definition add_edge :: "graph \<Rightarrow> int \<Rightarrow> int \<Rightarrow> edge_attrs \<Rightarrow> graph" where
  "add_edge g u v d =
     (let g1 = add_node (add_node g u) v in
      if list_ex (joins u v) (edges g1)
      then g1\<lparr>edges := map (\<lambda>e. if joins u v e
                                  then (fst e, fst (snd e), update_attrs (snd (snd e)) d)
                                  else e) (edges g1)\<rparr>
      else g1\<lparr>edges := edges g1 @ [(u, v, d)]\<rparr>)"

text \<open>\<open>MultiGraph.add_edge(u, v, **attr)\<close>: always one more edge.\<close>

definition multi_add_edge :: "graph \<Rightarrow> int \<Rightarrow> int \<Rightarrow> edge_attrs \<Rightarrow> graph" where
  "multi_add_edge g u v d =
     (let g1 = add_node (add_node g u) v in g1\<lparr>edges := edges g1 @ [(u, v, d)]\<rparr>)"

text \<open>\<open>graph.node[n][key] = value\<close> for a node of the graph.\<close>

definition set_node_attrs :: "graph \<Rightarrow> int \<Rightarrow> (node_attrs \<Rightarrow> node_attrs) \<Rightarrow> graph" where
  "set_node_attrs g n f = g\<lparr>node := map (\<lambda>(m, a). if m = n then (m, f a) else (m, a)) (node g)\<rparr>"

text \<open>
  \<open>graph.degree(n)\<close>: the number of edge ends at \<open>n\<close>, so that a self-loop counts twice.
\<close>

definition ends_at :: "int \<Rightarrow> int \<times> int \<times> edge_attrs \<Rightarrow> nat" where
  "ends_at n e = (case e of (a, b, d) \<Rightarrow> (if a = n then 1 else 0) + (if b = n then 1 else 0))"

definition degree :: "graph \<Rightarrow> int \<Rightarrow> nat" where
  "degree g n = sum_list (map (ends_at n) (edges g))"

text \<open>\<open>graph.size()\<close>: the number of edges.\<close>

definition size_of :: "graph \<Rightarrow> nat" where
  "size_of g = length (edges g)"

text \<open>\<open>graph[v]\<close> iterated: the neighbours of \<open>v\<close>, each once.\<close>

definition other_end :: "int \<Rightarrow> int \<times> int \<times> edge_attrs \<Rightarrow> int" where
  "other_end v e = (case e of (a, b, d) \<Rightarrow> if a = v then b else a)"

definition touches :: "int \<Rightarrow> int \<times> int \<times> edge_attrs \<Rightarrow> bool" where
  "touches v e = (case e of (a, b, d) \<Rightarrow> a = v \<or> b = v)"

definition nbrs :: "graph \<Rightarrow> int \<Rightarrow> int list" where
  "nbrs g v = remdups (map (other_end v) (filter (touches v) (edges g)))"

subsection \<open>pairs\<close>

text \<open>
  The generator \<open>pairs(lst, circular)\<close>. On an empty list \<open>i.next()\<close> raises
  StopIteration inside the generator, which in Python 2.7 ends it: nothing is yielded.
\<close>

fun successive :: "'a \<Rightarrow> 'a list \<Rightarrow> ('a \<times> 'a) list" where
  "successive prev [] = []"
| "successive prev (item # rest) = (prev, item) # successive item rest"

definition pairs :: "'a list \<Rightarrow> bool \<Rightarrow> ('a \<times> 'a) list" where
  "pairs lst circular =
     (case lst of
        [] \<Rightarrow> []
      | first # rest \<Rightarrow>
          successive first rest @ (if circular then [(last lst, first)] else []))"

subsection \<open>import\_csv\_graph\<close>

text \<open>
  The rows are what \<open>csv.reader\<close> yields: lists of strings. \<open>str.isdigit\<close> holds of a
  non-empty string of decimal digits; \<open>int\<close> of a string strips white space and reads an
  optional sign and decimal digits, a ValueError otherwise.
\<close>

definition is_digit :: "char \<Rightarrow> bool" where
  "is_digit c = (c \<in> set ''0123456789'')"

definition isdigit :: "string \<Rightarrow> bool" where
  "isdigit s = (s \<noteq> [] \<and> list_all is_digit s)"

definition digit_val :: "char \<Rightarrow> int" where
  "digit_val c = int (of_char c) - 48"

definition digits_val :: "string \<Rightarrow> int" where
  "digits_val s = foldl (\<lambda>a c. 10 * a + digit_val c) 0 s"

definition is_space :: "char \<Rightarrow> bool" where
  "is_space c = (c \<in> set [CHR '' '', CHR 0x09, CHR 0x0A, CHR 0x0B, CHR 0x0C, CHR 0x0D])"

definition strip :: "string \<Rightarrow> string" where
  "strip s = rev (dropWhile is_space (rev (dropWhile is_space s)))"

definition py_int :: "string \<Rightarrow> int option" where
  "py_int s =
     (case strip s of
        [] \<Rightarrow> None
      | c # cs \<Rightarrow>
          if c = CHR ''-'' then (if isdigit cs then Some (- digits_val cs) else None)
          else if c = CHR ''+'' then (if isdigit cs then Some (digits_val cs) else None)
          else if isdigit (c # cs) then Some (digits_val (c # cs))
          else None)"

text \<open>
  The loop over the rows, with the graph built so far. \<open>row[0]\<close> of an empty row is an
  IndexError; a failed \<open>int\<close> and an unpacking of the wrong number of fields are
  ValueErrors.
\<close>

fun import_rows :: "graph \<Rightarrow> string list list \<Rightarrow> error + graph" where
  "import_rows g [] = Inr g"
| "import_rows g (row # rest) =
     (case row of
        [] \<Rightarrow> Inl IndexError
      | r0 # _ \<Rightarrow>
          if \<not> isdigit r0 then import_rows g rest
          else
            (case map py_int (take 3 row) of
               [Some start_node, Some end_node, Some len] \<Rightarrow>
                 (case take 5 (drop 3 row) of
                    [i, start_lon, start_lat, end_lon, end_lat] \<Rightarrow>
                      (let g1 = add_edge g start_node end_node
                                  \<lparr>weight = len, edge_id = Some i, path = None\<rparr>;
                           g2 = set_node_attrs g1 start_node (\<lambda>a. a\<lparr>longitude := Some start_lon\<rparr>);
                           g3 = set_node_attrs g2 start_node (\<lambda>a. a\<lparr>latitude := Some start_lat\<rparr>);
                           g4 = set_node_attrs g3 end_node (\<lambda>a. a\<lparr>longitude := Some end_lon\<rparr>);
                           g5 = set_node_attrs g4 end_node (\<lambda>a. a\<lparr>latitude := Some end_lat\<rparr>)
                       in import_rows g5 rest)
                  | _ \<Rightarrow> Inl ValueError)
             | _ \<Rightarrow> Inl ValueError))"

definition import_csv_graph :: "string list list \<Rightarrow> error + graph" where
  "import_csv_graph rows = import_rows empty_graph rows"

subsection \<open>Breadth-first search, as networkx runs it\<close>

text \<open>
  \<open>nx.shortest_path_length(G, source)\<close> and \<open>nx.shortest_path(G, source)\<close>, called with no
  \<open>weight\<close> argument as the script calls them, are networkx's
  \<open>single_source_shortest_path_length\<close> and \<open>single_source_shortest_path\<close>: a search
  level by level that counts edges and never reads an edge attribute.

  \<^verbatim>\<open>
    seen = {}; level = 0; nextlevel = {source: 1}
    while nextlevel:
        thislevel = nextlevel; nextlevel = {}
        for v in thislevel:
            if v not in seen:
                seen[v] = level
                nextlevel.update(G[v])
        level = level + 1
    return seen
  \<close>
\<close>

definition add_keys :: "int list \<Rightarrow> int list \<Rightarrow> int list" where
  "add_keys d ks = fold (\<lambda>k d. if k \<in> set d then d else d @ [k]) ks d"

fun visit_level ::
  "graph \<Rightarrow> nat \<Rightarrow> int list \<Rightarrow> (int \<times> nat) list \<times> int list \<Rightarrow> (int \<times> nat) list \<times> int list"
where
  "visit_level g level [] (seen, nextlevel) = (seen, nextlevel)"
| "visit_level g level (v # vs) (seen, nextlevel) =
     (if v \<in> fst ` set seen then visit_level g level vs (seen, nextlevel)
      else visit_level g level vs (seen @ [(v, level)], add_keys nextlevel (nbrs g v)))"

text \<open>The nodes that an edge of the graph ends at.\<close>

definition endpoints :: "graph \<Rightarrow> int set" where
  "endpoints g = (\<Union>(a, b, d) \<in> set (edges g). {a, b})"

lemma set_add_keys: "set (add_keys d ks) = set d \<union> set ks"
proof -
  have "set (fold (\<lambda>k d. if k \<in> set d then d else d @ [k]) ks d) = set d \<union> set ks" for d
    by (induction ks arbitrary: d) auto
  then show ?thesis by (simp add: add_keys_def)
qed

lemma nbrs_endpoints: "w \<in> set (nbrs g v) \<Longrightarrow> v \<in> endpoints g \<and> w \<in> endpoints g"
  by (auto simp: nbrs_def endpoints_def touches_def other_end_def split: if_splits) blast+

lemma finite_endpoints: "finite (endpoints g)"
  by (auto simp: endpoints_def)

lemma visit_level_progress:
  "visit_level g level vs (seen, nl) = (seen', nl') \<Longrightarrow>
   fst ` set seen \<subseteq> fst ` set seen' \<and>
   (\<forall>w \<in> set nl' - set nl. \<exists>v \<in> endpoints g. v \<notin> fst ` set seen \<and> v \<in> fst ` set seen')"
proof (induction vs arbitrary: seen nl)
  case Nil
  then show ?case by simp
next
  case (Cons v vs)
  show ?case
  proof (cases "v \<in> fst ` set seen")
    case True
    with Cons show ?thesis by simp
  next
    case False
    with Cons.prems have step:
      "visit_level g level vs (seen @ [(v, level)], add_keys nl (nbrs g v)) = (seen', nl')"
      by simp
    note ih = Cons.IH [OF step]
    have sub: "fst ` set seen \<subseteq> fst ` set seen'" using ih by auto
    have vin: "v \<in> fst ` set seen'" using ih by auto
    have "\<exists>x \<in> endpoints g. x \<notin> fst ` set seen \<and> x \<in> fst ` set seen'"
      if w: "w \<in> set nl' - set nl" for w
    proof (cases "w \<in> set (add_keys nl (nbrs g v))")
      case True
      with w have "w \<in> set (nbrs g v)" by (simp add: set_add_keys)
      then have "v \<in> endpoints g" by (simp add: nbrs_endpoints)
      with False vin show ?thesis by blast
    next
      case False
      with w ih obtain x where "x \<in> endpoints g" "x \<notin> fst ` set (seen @ [(v, level)])"
        "x \<in> fst ` set seen'" by blast
      then show ?thesis by auto
    qed
    with sub show ?thesis by blast
  qed
qed

function bfs_lengths ::
  "graph \<Rightarrow> (int \<times> nat) list \<Rightarrow> nat \<Rightarrow> int list \<Rightarrow> (int \<times> nat) list"
where
  "bfs_lengths g seen level nextlevel =
     (if nextlevel = [] then seen
      else (case visit_level g level nextlevel (seen, []) of
              (seen', nextlevel') \<Rightarrow> bfs_lengths g seen' (level + 1) nextlevel'))"
  by pat_completeness auto
termination
proof (relation "measure (\<lambda>(g, seen, level, nl).
         if nl = [] then 0 else 1 + card (endpoints g - fst ` set seen))", goal_cases)
  case 1
  then show ?case by simp
next
  case (2 g seen level nextlevel seen' nl')
  then have v: "visit_level g level nextlevel (seen, []) = (seen', nl')" by simp
  note p = visit_level_progress [OF v]
  show ?case
  proof (cases "nl' = []")
    case True
    with 2(1) v show ?thesis by simp
  next
    case False
    then obtain w where "w \<in> set nl' - set []" by (cases nl') auto
    with p obtain x where x: "x \<in> endpoints g" "x \<notin> fst ` set seen" "x \<in> fst ` set seen'"
      by blast
    have fin: "finite (endpoints g - fst ` set seen)"
      by (simp add: finite_endpoints)
    have sub: "endpoints g - fst ` set seen' \<subseteq> endpoints g - fst ` set seen"
      using p by blast
    have "x \<in> endpoints g - fst ` set seen" "x \<notin> endpoints g - fst ` set seen'"
      using x by simp_all
    with sub have "endpoints g - fst ` set seen' \<subset> endpoints g - fst ` set seen"
      by blast
    with fin have "card (endpoints g - fst ` set seen') < card (endpoints g - fst ` set seen)"
      by (rule psubset_card_mono)
    with 2(1) v False show ?thesis by simp
  qed
qed

declare bfs_lengths.simps [simp del]

definition single_source_shortest_path_length :: "graph \<Rightarrow> int \<Rightarrow> (int \<times> nat) list" where
  "single_source_shortest_path_length g source = bfs_lengths g [] 0 [source]"

text \<open>
  \<^verbatim>\<open>
    nextlevel = {source: 1}; paths = {source: [source]}
    while nextlevel:
        thislevel = nextlevel; nextlevel = {}
        for v in thislevel:
            for w in G[v]:
                if w not in paths:
                    paths[w] = paths[v] + [w]
                    nextlevel[w] = 1
    return paths
  \<close>
  Every \<open>v\<close> of a level is a key of \<open>paths\<close> (it was stored when it entered the level),
  so \<open>paths[v]\<close> is read with \<open>lookup_path\<close>.
\<close>

definition lookup_path :: "(int \<times> int list) list \<Rightarrow> int \<Rightarrow> int list" where
  "lookup_path paths v = (case map_of paths v of None \<Rightarrow> [] | Some p \<Rightarrow> p)"

fun visit_nbrs ::
  "int list \<Rightarrow> int list \<Rightarrow> (int \<times> int list) list \<times> int list \<Rightarrow> (int \<times> int list) list \<times> int list"
where
  "visit_nbrs pv [] (paths, nextlevel) = (paths, nextlevel)"
| "visit_nbrs pv (w # ws) (paths, nextlevel) =
     (if w \<in> fst ` set paths then visit_nbrs pv ws (paths, nextlevel)
      else visit_nbrs pv ws (paths @ [(w, pv @ [w])], nextlevel @ [w]))"

fun visit_paths_level ::
  "graph \<Rightarrow> int list \<Rightarrow> (int \<times> int list) list \<times> int list \<Rightarrow> (int \<times> int list) list \<times> int list"
where
  "visit_paths_level g [] (paths, nextlevel) = (paths, nextlevel)"
| "visit_paths_level g (v # vs) (paths, nextlevel) =
     visit_paths_level g vs (visit_nbrs (lookup_path paths v) (nbrs g v) (paths, nextlevel))"

lemma visit_nbrs_progress:
  "visit_nbrs pv ws (paths, nl) = (paths', nl') \<Longrightarrow>
   fst ` set paths \<subseteq> fst ` set paths' \<and>
   set nl' - set nl \<subseteq> set ws \<inter> (fst ` set paths' - fst ` set paths)"
proof (induction ws arbitrary: paths nl)
  case Nil
  then show ?case by simp
next
  case (Cons w ws)
  show ?case
  proof (cases "w \<in> fst ` set paths")
    case True
    with Cons show ?thesis by auto
  next
    case False
    with Cons.prems have step:
      "visit_nbrs pv ws (paths @ [(w, pv @ [w])], nl @ [w]) = (paths', nl')" by simp
    note ih = Cons.IH [OF step]
    have "w \<in> fst ` set paths'" using ih by auto
    with ih False show ?thesis by auto
  qed
qed

lemma visit_paths_level_progress:
  "visit_paths_level g vs (paths, nl) = (paths', nl') \<Longrightarrow>
   fst ` set paths \<subseteq> fst ` set paths' \<and>
   set nl' - set nl \<subseteq> endpoints g \<inter> (fst ` set paths' - fst ` set paths)"
proof (induction vs arbitrary: paths nl)
  case Nil
  then show ?case by simp
next
  case (Cons v vs)
  obtain p1 n1 where s1: "visit_nbrs (lookup_path paths v) (nbrs g v) (paths, nl) = (p1, n1)"
    by (cases "visit_nbrs (lookup_path paths v) (nbrs g v) (paths, nl)")
  with Cons.prems have s2: "visit_paths_level g vs (p1, n1) = (paths', nl')" by simp
  define K K1 K' where "K = fst ` set paths" and "K1 = fst ` set p1" and "K' = fst ` set paths'"
  have a: "K \<subseteq> K1" "set n1 - set nl \<subseteq> set (nbrs g v) \<inter> (K1 - K)"
    using visit_nbrs_progress [OF s1] by (simp_all add: K_def K1_def)
  have b: "K1 \<subseteq> K'" "set nl' - set n1 \<subseteq> endpoints g \<inter> (K' - K1)"
    using Cons.IH [OF s2] by (simp_all add: K1_def K'_def)
  have c: "set (nbrs g v) \<subseteq> endpoints g" using nbrs_endpoints by blast
  have "K \<subseteq> K'" using a(1) b(1) by blast
  moreover have "set nl' - set nl \<subseteq> endpoints g \<inter> (K' - K)"
    using a b c by blast
  ultimately show ?case by (simp add: K_def K'_def)
qed

function bfs_paths ::
  "graph \<Rightarrow> (int \<times> int list) list \<Rightarrow> int list \<Rightarrow> (int \<times> int list) list"
where
  "bfs_paths g paths nextlevel =
     (if nextlevel = [] then paths
      else (case visit_paths_level g nextlevel (paths, []) of
              (paths', nextlevel') \<Rightarrow> bfs_paths g paths' nextlevel'))"
  by pat_completeness auto
termination
proof (relation "measure (\<lambda>(g, paths, nl).
         if nl = [] then 0 else 1 + card (endpoints g - fst ` set paths))", goal_cases)
  case 1
  then show ?case by simp
next
  case (2 g paths nextlevel paths' nl')
  then have v: "visit_paths_level g nextlevel (paths, []) = (paths', nl')" by simp
  note p = visit_paths_level_progress [OF v]
  show ?case
  proof (cases "nl' = []")
    case True
    with 2(1) v show ?thesis by simp
  next
    case False
    then obtain w where "w \<in> set nl' - set []" by (cases nl') auto
    with p have x: "w \<in> endpoints g" "w \<notin> fst ` set paths" "w \<in> fst ` set paths'"
      by blast+
    have fin: "finite (endpoints g - fst ` set paths)"
      by (simp add: finite_endpoints)
    have sub: "endpoints g - fst ` set paths' \<subseteq> endpoints g - fst ` set paths"
      using p by blast
    have "w \<in> endpoints g - fst ` set paths" "w \<notin> endpoints g - fst ` set paths'"
      using x by simp_all
    with sub have "endpoints g - fst ` set paths' \<subset> endpoints g - fst ` set paths"
      by blast
    with fin have "card (endpoints g - fst ` set paths') < card (endpoints g - fst ` set paths)"
      by (rule psubset_card_mono)
    with 2(1) v False show ?thesis by simp
  qed
qed

declare bfs_paths.simps [simp del]

definition single_source_shortest_path :: "graph \<Rightarrow> int \<Rightarrow> (int \<times> int list) list" where
  "single_source_shortest_path g source = bfs_paths g [(source, [source])] [source]"

subsection \<open>validate\_graph\<close>

text \<open>
  \<open>list.sort(key=..., reverse=True)\<close> is stable: of two items with the same key the one
  that came first stays first.
\<close>

definition sort_reverse :: "('a \<Rightarrow> nat) \<Rightarrow> 'a list \<Rightarrow> 'a list" where
  "sort_reverse key xs = sort_key (\<lambda>x. - int (key x)) xs"

text \<open>
  \<open>nx.connected_components(G)\<close> of networkx 1.x: the node lists of the components, each
  found by a search from the first node of \<open>G\<close> not seen before, sorted by
  \<open>len\<close>, largest first.
  \<^verbatim>\<open>
    seen = {}; components = []
    for v in G:
        if v not in seen:
            c = nx.single_source_shortest_path_length(G, v)
            components.append(list(c.keys()))
            seen.update(c)
    components.sort(key=len, reverse=True)
  \<close>
\<close>

fun components_loop :: "graph \<Rightarrow> int list \<Rightarrow> int list \<times> int list list \<Rightarrow> int list list" where
  "components_loop g [] (seen, components) = components"
| "components_loop g (v # vs) (seen, components) =
     (if v \<in> set seen then components_loop g vs (seen, components)
      else (let c = map fst (single_source_shortest_path_length g v)
            in components_loop g vs (add_keys seen c, components @ [c])))"

definition connected_components :: "graph \<Rightarrow> int list list" where
  "connected_components g = sort_reverse length (components_loop g (nodes g) ([], []))"

text \<open>
  \<open>G.subgraph(c)\<close>: the nodes of \<open>c\<close> that are nodes of \<open>G\<close>, with their attributes, and
  the edges of \<open>G\<close> with both ends among them.
\<close>

definition subgraph :: "graph \<Rightarrow> int list \<Rightarrow> graph" where
  "subgraph g c =
     \<lparr>node = concat (map (\<lambda>n. case map_of (node g) n of None \<Rightarrow> [] | Some a \<Rightarrow> [(n, a)]) c),
      edges = filter (\<lambda>(a, b, d). a \<in> set c \<and> b \<in> set c) (edges g)\<rparr>"

definition connected_component_subgraphs :: "graph \<Rightarrow> graph list" where
  "connected_component_subgraphs g = map (subgraph g) (connected_components g)"

text \<open>
  \<open>validate_graph\<close> returns the main component; the flag says whether the warning about
  several components was printed. \<open>components[0]\<close> of an empty list is an IndexError.
\<close>

definition validate_graph :: "graph \<Rightarrow> error + (bool \<times> graph)" where
  "validate_graph g =
     (let components = sort_reverse size_of (connected_component_subgraphs g);
          warning = (length components > 1)
      in case components of
           [] \<Rightarrow> Inl IndexError
         | main_component # _ \<Rightarrow> Inr (warning, main_component))"

subsection \<open>odd\_graph\<close>

definition shortest_path :: "graph \<Rightarrow> int \<Rightarrow> (int \<times> int list) list" where
  "shortest_path g source = single_source_shortest_path g source"

definition shortest_path_length :: "graph \<Rightarrow> int \<Rightarrow> (int \<times> nat) list" where
  "shortest_path_length g source = single_source_shortest_path_length g source"

text \<open>The inner loop \<open>for v in odd_nodes\<close>; \<open>lengths[v]\<close> and \<open>paths[v]\<close> can be KeyErrors.\<close>

fun odd_inner ::
  "int \<Rightarrow> (int \<times> int list) list \<Rightarrow> (int \<times> nat) list \<Rightarrow> int list \<Rightarrow> graph \<Rightarrow> error + graph"
where
  "odd_inner u paths lengths [] result = Inr result"
| "odd_inner u paths lengths (v # vs) result =
     (if u \<le> v then odd_inner u paths lengths vs result
      else
        (case map_of lengths v of
           None \<Rightarrow> Inl KeyError
         | Some l \<Rightarrow>
             (case map_of paths v of
                None \<Rightarrow> Inl KeyError
              | Some p \<Rightarrow>
                  odd_inner u paths lengths vs
                    (add_edge result u v \<lparr>weight = - int l, edge_id = None, path = Some p\<rparr>))))"

text \<open>The outer loop \<open>for u in odd_nodes\<close>.\<close>

fun odd_outer :: "graph \<Rightarrow> int list \<Rightarrow> int list \<Rightarrow> graph \<Rightarrow> error + graph" where
  "odd_outer g odd_nodes [] result = Inr result"
| "odd_outer g odd_nodes (u # us) result =
     (let paths = shortest_path g u;
          lengths = shortest_path_length g u
      in case odd_inner u paths lengths odd_nodes result of
           Inl e \<Rightarrow> Inl e
         | Inr result' \<Rightarrow> odd_outer g odd_nodes us result')"

definition odd_nodes_of :: "graph \<Rightarrow> int list" where
  "odd_nodes_of g = filter (\<lambda>n. degree g n mod 2 = 1) (nodes g)"

definition odd_graph :: "graph \<Rightarrow> error + graph" where
  "odd_graph g = (let odd_nodes = odd_nodes_of g in odd_outer g odd_nodes odd_nodes empty_graph)"

subsection \<open>edge\_sum\<close>

definition edge_sum :: "graph \<Rightarrow> int" where
  "edge_sum g = fold (\<lambda>(u, v, data) total. total + weight data) (edges g) 0"

subsection \<open>The two library results of chinese\_postman\_path\<close>

text \<open>
  \<open>nx.max_weight_matching(odd, True)\<close> returns a dictionary \<open>mate\<close> with \<open>mate[v] == w\<close>
  and \<open>mate[w] == v\<close> for every matched pair: by its documentation a matching of maximum
  cardinality, and of maximum weight among those. The blossom algorithm behind it is not
  part of the script; the model takes the dictionary as a value and describes which
  dictionaries the library can return.
\<close>

definition no_common_end :: "(int \<times> int \<times> edge_attrs) list \<Rightarrow> bool" where
  "no_common_end m = distinct (concat (map (\<lambda>(a, b, d). [a, b]) m))"

definition matchings :: "graph \<Rightarrow> (int \<times> int \<times> edge_attrs) list list" where
  "matchings g = filter no_common_end (subseqs (edges g))"

definition matching_weight :: "(int \<times> int \<times> edge_attrs) list \<Rightarrow> int" where
  "matching_weight m = sum_list (map (\<lambda>(a, b, d). weight d) m)"

text \<open>The dictionary of a matching: both directions of every pair.\<close>

definition is_mate_of :: "(int \<times> int) list \<Rightarrow> (int \<times> int \<times> edge_attrs) list \<Rightarrow> bool" where
  "is_mate_of mate m =
     (distinct (map fst mate) \<and>
      set mate = set (concat (map (\<lambda>(a, b, d). [(a, b), (b, a)]) m)))"

definition max_weight_matching_returns :: "graph \<Rightarrow> (int \<times> int) list \<Rightarrow> bool" where
  "max_weight_matching_returns g mate =
     list_ex (\<lambda>m. is_mate_of mate m \<and>
                  list_all (\<lambda>m'. length m' < length m \<or>
                                  (length m' = length m \<and> matching_weight m' \<le> matching_weight m))
                           (matchings g))
             (matchings g)"

text \<open>
  \<open>nx.eulerian_circuit(G)\<close> raises NetworkXError unless \<open>is_eulerian(G)\<close>: every degree
  even and \<open>is_connected(G)\<close>, which is a search from the first node and is undefined
  (NetworkXPointlessConcept) for a graph with no node. Otherwise it yields the edges
  \<open>(u, v)\<close> of a closed walk that uses every edge once.
\<close>

definition is_connected :: "graph \<Rightarrow> error + bool" where
  "is_connected g =
     (case nodes g of
        [] \<Rightarrow> Inl NetworkXPointlessConcept
      | n # _ \<Rightarrow> Inr (length (single_source_shortest_path_length g n) = length (nodes g)))"

definition is_eulerian :: "graph \<Rightarrow> error + bool" where
  "is_eulerian g =
     (if list_ex (\<lambda>v. degree g v mod 2 \<noteq> 0) (nodes g) then Inr False else is_connected g)"

fun chained :: "(int \<times> int) list \<Rightarrow> bool" where
  "chained [] = True"
| "chained [e] = True"
| "chained (e # f # rest) = (snd e = fst f \<and> chained (f # rest))"

definition undirected :: "int \<times> int \<Rightarrow> int \<times> int" where
  "undirected e = (case e of (a, b) \<Rightarrow> (min a b, max a b))"

definition edge_ends :: "graph \<Rightarrow> (int \<times> int) list" where
  "edge_ends g = map (\<lambda>(a, b, d). (a, b)) (edges g)"

definition closed_walk :: "(int \<times> int) list \<Rightarrow> bool" where
  "closed_walk circuit = (case circuit of [] \<Rightarrow> True | e # _ \<Rightarrow> snd (last circuit) = fst e)"

definition eulerian_circuit_returns :: "graph \<Rightarrow> (int \<times> int) list \<Rightarrow> bool" where
  "eulerian_circuit_returns g circuit =
     (chained circuit \<and> closed_walk circuit \<and>
      mset (map undirected circuit) = mset (map undirected (edge_ends g)))"

subsection \<open>chinese\_postman\_path\<close>

text \<open>
  \<open>for p, q in pairs(path): eulerian_graph.add_edge(p, q, weight=graph[p][q]['weight'])\<close>
\<close>

fun add_path_edges :: "graph \<Rightarrow> (int \<times> int) list \<Rightarrow> graph \<Rightarrow> error + graph" where
  "add_path_edges g [] eulerian_graph = Inr eulerian_graph"
| "add_path_edges g ((p, q) # rest) eulerian_graph =
     (case get_edge g p q of
        Inl e \<Rightarrow> Inl e
      | Inr d \<Rightarrow>
          add_path_edges g rest
            (multi_add_edge eulerian_graph p q \<lparr>weight = weight d, edge_id = None, path = None\<rparr>))"

text \<open>The loop \<open>for u, v in matching.items()\<close>.\<close>

fun add_matching :: "graph \<Rightarrow> graph \<Rightarrow> (int \<times> int) list \<Rightarrow> graph \<Rightarrow> error + graph" where
  "add_matching g odd_gr [] eulerian_graph = Inr eulerian_graph"
| "add_matching g odd_gr ((u, v) # rest) eulerian_graph =
     (if v \<le> u then add_matching g odd_gr rest eulerian_graph
      else
        (case get_edge odd_gr u v of
           Inl e \<Rightarrow> Inl e
         | Inr edge \<Rightarrow>
             (case path edge of
                None \<Rightarrow> Inl KeyError
              | Some p \<Rightarrow>
                  (case add_path_edges g (pairs p False) eulerian_graph of
                     Inl e \<Rightarrow> Inl e
                   | Inr eulerian_graph' \<Rightarrow> add_matching g odd_gr rest eulerian_graph'))))"

text \<open>
  The first half of \<open>chinese_postman_path\<close>, up to the augmented multigraph.
  \<open>nx.MultiGraph(graph)\<close> is a new graph object with the nodes, the edges and the
  attributes of \<open>graph\<close>; \<open>matching\<close> is what \<open>nx.max_weight_matching(odd, True)\<close>
  returned.
\<close>

definition eulerian_graph_of :: "graph \<Rightarrow> (int \<times> int) list \<Rightarrow> error + graph" where
  "eulerian_graph_of g matching =
     (case odd_graph g of
        Inl e \<Rightarrow> Inl e
      | Inr odd_gr \<Rightarrow> add_matching g odd_gr matching g)"

text \<open>
  The whole function; \<open>circuit\<close> is the list of what \<open>nx.eulerian_circuit(eulerian_graph)\<close>
  yielded. \<open>circuit[0][0]\<close> of an empty list is an IndexError.
\<close>

definition chinese_postman_path ::
  "graph \<Rightarrow> (int \<times> int) list \<Rightarrow> (int \<times> int) list \<Rightarrow> error + (graph \<times> int list)"
where
  "chinese_postman_path g matching circuit =
     (case eulerian_graph_of g matching of
        Inl e \<Rightarrow> Inl e
      | Inr eulerian_graph \<Rightarrow>
          (case is_eulerian eulerian_graph of
             Inl e \<Rightarrow> Inl e
           | Inr False \<Rightarrow> Inl NetworkXError
           | Inr True \<Rightarrow>
               (case circuit of
                  [] \<Rightarrow> Inl IndexError
                | first # _ \<Rightarrow> Inr (eulerian_graph, map fst circuit @ [fst first]))))"

text \<open>
  What the two library calls contribute to a run of \<open>chinese_postman_path\<close> on
  \<open>g\<close>: the matching is one the library can return for the graph of odd nodes, and the
  circuit is one it can yield for the augmented graph. A call that is never reached (an
  earlier statement raised, or the graph is not Eulerian) constrains nothing.
\<close>

definition matching_from_library :: "graph \<Rightarrow> (int \<times> int) list \<Rightarrow> bool" where
  "matching_from_library g matching =
     (case odd_graph g of
        Inl e \<Rightarrow> True
      | Inr odd_gr \<Rightarrow> max_weight_matching_returns odd_gr matching)"

definition circuit_from_library :: "graph \<Rightarrow> (int \<times> int) list \<Rightarrow> (int \<times> int) list \<Rightarrow> bool" where
  "circuit_from_library g matching circuit =
     (case eulerian_graph_of g matching of
        Inl e \<Rightarrow> True
      | Inr eulerian_graph \<Rightarrow>
          (if is_eulerian eulerian_graph = Inr True
           then eulerian_circuit_returns eulerian_graph circuit else True))"

subsection \<open>The same run on a store of graph objects\<close>

text \<open>
  In Python a graph is an object that \<open>add_edge\<close> changes in place, and a variable holds
  a reference to it. To say what a call leaves unchanged, the functions are written once
  more over a store that maps references to graph objects: \<open>nx.Graph()\<close> and
  \<open>nx.MultiGraph(graph)\<close> make a new object, \<open>add_edge\<close> changes the object its
  receiver refers to, and every read of \<open>graph\<close> looks the object up in the store as it
  is at that moment. The store is returned also when an exception is raised.
\<close>

type_synonym ref = nat

record store =
  objects :: "ref \<Rightarrow> graph option"
  next_ref :: ref

definition deref :: "store \<Rightarrow> ref \<Rightarrow> graph" where
  "deref h r = (case objects h r of None \<Rightarrow> empty_graph | Some g \<Rightarrow> g)"

definition alloc :: "graph \<Rightarrow> store \<Rightarrow> ref \<times> store" where
  "alloc g h =
     (next_ref h, \<lparr>objects = (objects h)(next_ref h \<mapsto> g), next_ref = Suc (next_ref h)\<rparr>)"

definition mutate :: "ref \<Rightarrow> (graph \<Rightarrow> graph) \<Rightarrow> store \<Rightarrow> store" where
  "mutate r f h = h\<lparr>objects := (objects h)(r \<mapsto> f (deref h r))\<rparr>"

fun odd_inner_st ::
  "int \<Rightarrow> (int \<times> int list) list \<Rightarrow> (int \<times> nat) list \<Rightarrow> int list \<Rightarrow> ref \<Rightarrow> store
     \<Rightarrow> (error + unit) \<times> store"
where
  "odd_inner_st u paths lengths [] result h = (Inr (), h)"
| "odd_inner_st u paths lengths (v # vs) result h =
     (if u \<le> v then odd_inner_st u paths lengths vs result h
      else
        (case map_of lengths v of
           None \<Rightarrow> (Inl KeyError, h)
         | Some l \<Rightarrow>
             (case map_of paths v of
                None \<Rightarrow> (Inl KeyError, h)
              | Some p \<Rightarrow>
                  odd_inner_st u paths lengths vs result
                    (mutate result
                       (\<lambda>r. add_edge r u v \<lparr>weight = - int l, edge_id = None, path = Some p\<rparr>) h))))"

fun odd_outer_st :: "ref \<Rightarrow> int list \<Rightarrow> int list \<Rightarrow> ref \<Rightarrow> store \<Rightarrow> (error + unit) \<times> store" where
  "odd_outer_st graph odd_nodes [] result h = (Inr (), h)"
| "odd_outer_st graph odd_nodes (u # us) result h =
     (let paths = shortest_path (deref h graph) u;
          lengths = shortest_path_length (deref h graph) u
      in case odd_inner_st u paths lengths odd_nodes result h of
           (Inl e, h') \<Rightarrow> (Inl e, h')
         | (Inr _, h') \<Rightarrow> odd_outer_st graph odd_nodes us result h')"

definition odd_graph_st :: "ref \<Rightarrow> store \<Rightarrow> (error + ref) \<times> store" where
  "odd_graph_st graph h =
     (case alloc empty_graph h of
        (result, h1) \<Rightarrow>
          (let odd_nodes = odd_nodes_of (deref h1 graph)
           in case odd_outer_st graph odd_nodes odd_nodes result h1 of
                (Inl e, h2) \<Rightarrow> (Inl e, h2)
              | (Inr _, h2) \<Rightarrow> (Inr result, h2)))"

fun add_path_edges_st :: "ref \<Rightarrow> (int \<times> int) list \<Rightarrow> ref \<Rightarrow> store \<Rightarrow> (error + unit) \<times> store" where
  "add_path_edges_st graph [] eulerian_graph h = (Inr (), h)"
| "add_path_edges_st graph ((p, q) # rest) eulerian_graph h =
     (case get_edge (deref h graph) p q of
        Inl e \<Rightarrow> (Inl e, h)
      | Inr d \<Rightarrow>
          add_path_edges_st graph rest eulerian_graph
            (mutate eulerian_graph
               (\<lambda>eg. multi_add_edge eg p q \<lparr>weight = weight d, edge_id = None, path = None\<rparr>) h))"

fun add_matching_st ::
  "ref \<Rightarrow> ref \<Rightarrow> (int \<times> int) list \<Rightarrow> ref \<Rightarrow> store \<Rightarrow> (error + unit) \<times> store"
where
  "add_matching_st graph odd_ref [] eulerian_graph h = (Inr (), h)"
| "add_matching_st graph odd_ref ((u, v) # rest) eulerian_graph h =
     (if v \<le> u then add_matching_st graph odd_ref rest eulerian_graph h
      else
        (case get_edge (deref h odd_ref) u v of
           Inl e \<Rightarrow> (Inl e, h)
         | Inr edge \<Rightarrow>
             (case path edge of
                None \<Rightarrow> (Inl KeyError, h)
              | Some p \<Rightarrow>
                  (case add_path_edges_st graph (pairs p False) eulerian_graph h of
                     (Inl e, h') \<Rightarrow> (Inl e, h')
                   | (Inr _, h') \<Rightarrow> add_matching_st graph odd_ref rest eulerian_graph h'))))"

text \<open>
  \<open>chinese_postman_path\<close> on the store: it is given the reference \<open>graph\<close> and returns
  the reference of the multigraph it made, with the node sequence.
\<close>

definition chinese_postman_path_st ::
  "ref \<Rightarrow> (int \<times> int) list \<Rightarrow> (int \<times> int) list \<Rightarrow> store \<Rightarrow> (error + ref \<times> int list) \<times> store"
where
  "chinese_postman_path_st graph matching circuit h =
     (case odd_graph_st graph h of
        (Inl e, h1) \<Rightarrow> (Inl e, h1)
      | (Inr odd_ref, h1) \<Rightarrow>
          (case alloc (deref h1 graph) h1 of
             (eulerian_graph, h2) \<Rightarrow>
               (case add_matching_st graph odd_ref matching eulerian_graph h2 of
                  (Inl e, h3) \<Rightarrow> (Inl e, h3)
                | (Inr _, h3) \<Rightarrow>
                    (case is_eulerian (deref h3 eulerian_graph) of
                       Inl e \<Rightarrow> (Inl e, h3)
                     | Inr False \<Rightarrow> (Inl NetworkXError, h3)
                     | Inr True \<Rightarrow>
                         (case circuit of
                            [] \<Rightarrow> (Inl IndexError, h3)
                          | first # _ \<Rightarrow>
                              (Inr (eulerian_graph, map fst circuit @ [fst first]), h3))))))"

definition one_graph :: "graph \<Rightarrow> store" where
  "one_graph g = \<lparr>objects = Map.empty(0 \<mapsto> g), next_ref = 1\<rparr>"

text \<open>What a statement that changes one object leaves alone.\<close>

definition only_changes :: "ref \<Rightarrow> store \<Rightarrow> store \<Rightarrow> bool" where
  "only_changes r h h' =
     (next_ref h' = next_ref h \<and> (\<forall>x. x \<noteq> r \<longrightarrow> objects h' x = objects h x))"

text \<open>How an error or a result of the functions on values reads on the store.\<close>

definition no_value :: "error + 'a \<Rightarrow> error + unit" where
  "no_value r = (case r of Inl e \<Rightarrow> Inl e | Inr x \<Rightarrow> Inr ())"

subsection \<open>Well-formed and connected graphs\<close>

text \<open>
  What every networkx graph satisfies: the node dictionary has each node once and both
  ends of every edge are nodes.
\<close>

definition wf_graph :: "graph \<Rightarrow> bool" where
  "wf_graph g =
     (distinct (nodes g) \<and>
      list_all (\<lambda>(a, b, d). a \<in> set (nodes g) \<and> b \<in> set (nodes g)) (edges g))"

definition adjacent :: "graph \<Rightarrow> (int \<times> int) set" where
  "adjacent g = {(a, b). list_ex (joins a b) (edges g)}"

text \<open>A connected graph: every node is reached from every node along edges.\<close>

definition connected :: "graph \<Rightarrow> bool" where
  "connected g = (\<forall>u \<in> set (nodes g). \<forall>v \<in> set (nodes g). (u, v) \<in> (adjacent g)\<^sup>*)"

text \<open>A walk from \<open>a\<close> to \<open>b\<close>: a list of nodes, each joined to the next by an edge.\<close>

definition walk :: "graph \<Rightarrow> int \<Rightarrow> int \<Rightarrow> int list \<Rightarrow> bool" where
  "walk g a b p =
     (p \<noteq> [] \<and> hd p = a \<and> last p = b \<and>
      list_all (\<lambda>(x, y). list_ex (joins x y) (edges g)) (pairs p False))"

subsection \<open>The distance the specification speaks of\<close>

text \<open>
  The specification's \<open>shortest-path distance\<close> is shortest with respect to the edge
  weights. This definition follows those words and is not taken from the script: the
  least total weight of a walk from \<open>u\<close> to \<open>v\<close>, found by relaxing every edge in both
  directions as many times as the graph has nodes (enough for non-negative weights).
\<close>

definition improve :: "int \<Rightarrow> int option \<Rightarrow> int \<Rightarrow> (int \<times> int) list \<Rightarrow> (int \<times> int) list" where
  "improve x from w dist =
     (case from of
        None \<Rightarrow> dist
      | Some d \<Rightarrow>
          (case map_of dist x of
             None \<Rightarrow> dist @ [(x, d + w)]
           | Some dx \<Rightarrow>
               if d + w < dx then map (\<lambda>(k, old). if k = x then (k, d + w) else (k, old)) dist
               else dist))"

definition relax :: "graph \<Rightarrow> (int \<times> int) list \<Rightarrow> (int \<times> int) list" where
  "relax g dist =
     fold (\<lambda>(a, b, d) f. improve a (map_of f b) (weight d) (improve b (map_of f a) (weight d) f))
       (edges g) dist"

fun relax_times :: "nat \<Rightarrow> graph \<Rightarrow> (int \<times> int) list \<Rightarrow> (int \<times> int) list" where
  "relax_times 0 g dist = dist"
| "relax_times (Suc n) g dist = relax_times n g (relax g dist)"

definition weighted_distance :: "graph \<Rightarrow> int \<Rightarrow> int \<Rightarrow> int option" where
  "weighted_distance g u v = map_of (relax_times (length (nodes g)) g [(u, 0)]) v"

subsection \<open>Concrete graphs\<close>

text \<open>A graph of the given nodes and weighted edges, with no other attribute.\<close>

definition plain_graph :: "int list \<Rightarrow> (int \<times> int \<times> int) list \<Rightarrow> graph" where
  "plain_graph ns es =
     \<lparr>node = map (\<lambda>n. (n, no_attrs)) ns,
      edges = map (\<lambda>(a, b, w). (a, b, \<lparr>weight = w, edge_id = None, path = None\<rparr>)) es\<rparr>"

text \<open>The specification's scenario of one edge of weight 5 between the nodes 1 and 2.\<close>

definition single_edge :: graph where
  "single_edge = plain_graph [1, 2] [(1, 2, 5)]"

text \<open>A long edge from 1 to 2 beside a short way round through 3; 4 and 5 hang on 1 and 2.\<close>

definition detour :: graph where
  "detour = plain_graph [1, 2, 3, 4, 5] [(1, 2, 10), (1, 3, 1), (3, 2, 1), (1, 4, 1), (2, 5, 1)]"

text \<open>
  Four nodes of degree 3 joined by four long edges and a short edge from 2 to 4; node 5
  sits in the middle of a short way from 1 to 3.
\<close>

definition shortcuts :: graph where
  "shortcuts = plain_graph [1, 2, 3, 4, 5]
     [(1, 2, 10), (3, 4, 10), (1, 4, 10), (2, 3, 10), (1, 5, 1), (5, 3, 1), (2, 4, 1)]"

text \<open>The complete graph on 1 to 4 (six edges) and a path through 5 to 9 (four edges).\<close>

definition two_components :: graph where
  "two_components = plain_graph [1, 2, 3, 4, 5, 6, 7, 8, 9]
     [(1, 2, 1), (1, 3, 1), (1, 4, 1), (2, 3, 1), (2, 4, 1), (3, 4, 1),
      (5, 6, 1), (6, 7, 1), (7, 8, 1), (8, 9, 1)]"

text \<open>A star: the centre 1 and the leaves 2, 3 and 4 on edges of weight 2, 3 and 4.\<close>

definition star :: graph where
  "star = plain_graph [1, 2, 3, 4] [(1, 2, 2), (1, 3, 3), (1, 4, 4)]"

text \<open>One edge of weight 0 between the nodes 1 and 2.\<close>

definition zero_edge :: graph where
  "zero_edge = plain_graph [1, 2] [(1, 2, 0)]"

text \<open>
  \<open>shortcuts\<close> with the two edges that the matching of 1 with 2 and of 3 with 4 adds,
  and a closed walk over its nine edges.
\<close>

definition shortcuts_matching :: "(int \<times> int) list" where
  "shortcuts_matching = [(1, 2), (2, 1), (3, 4), (4, 3)]"

definition shortcuts_augmented :: graph where
  "shortcuts_augmented = plain_graph [1, 2, 3, 4, 5]
     [(1, 2, 10), (3, 4, 10), (1, 4, 10), (2, 3, 10), (1, 5, 1), (5, 3, 1), (2, 4, 1),
      (2, 1, 10), (4, 3, 10)]"

definition shortcuts_circuit :: "(int \<times> int) list" where
  "shortcuts_circuit = [(1, 2), (2, 1), (1, 4), (4, 3), (3, 4), (4, 2), (2, 3), (3, 5), (5, 1)]"

text \<open>The graph of odd nodes that \<open>odd_graph\<close> builds for \<open>shortcuts\<close>.\<close>

definition shortcuts_odd :: graph where
  "shortcuts_odd =
     \<lparr>node = [(2, no_attrs), (1, no_attrs), (3, no_attrs), (4, no_attrs)],
      edges =
        [(2, 1, \<lparr>weight = - 1, edge_id = None, path = Some [2, 1]\<rparr>),
         (3, 1, \<lparr>weight = - 2, edge_id = None, path = Some [3, 4, 1]\<rparr>),
         (3, 2, \<lparr>weight = - 1, edge_id = None, path = Some [3, 2]\<rparr>),
         (4, 1, \<lparr>weight = - 1, edge_id = None, path = Some [4, 1]\<rparr>),
         (4, 2, \<lparr>weight = - 1, edge_id = None, path = Some [4, 2]\<rparr>),
         (4, 3, \<lparr>weight = - 1, edge_id = None, path = Some [4, 3]\<rparr>)]\<rparr>"

subsection \<open>Notions used in the proofs\<close>

text \<open>The dictionary of the search for paths holds each node once, with a walk from the source.\<close>

definition paths_ok :: "graph \<Rightarrow> int \<Rightarrow> (int \<times> int list) list \<Rightarrow> bool" where
  "paths_ok g s paths = (distinct (map fst paths) \<and> (\<forall>(w, p) \<in> set paths. walk g s w p))"

text \<open>The edges of the graph of odd nodes run between odd nodes, from the larger to the
  smaller, and carry a walk of the base graph between them.\<close>

definition odd_edges_ok :: "graph \<Rightarrow> graph \<Rightarrow> bool" where
  "odd_edges_ok g r =
     (\<forall>(a, b, d) \<in> set (edges r).
        a \<in> set (odd_nodes_of g) \<and> b \<in> set (odd_nodes_of g) \<and> b < a \<and>
        (\<exists>p. path d = Some p \<and> walk g a b p))"

text \<open>The nodes that the edges of a matching end at.\<close>

definition ends :: "(int \<times> int \<times> edge_attrs) list \<Rightarrow> int list" where
  "ends m = concat (map (\<lambda>(a, b, d). [a, b]) m)"

text \<open>The items of the matching that the loop of \<open>chinese_postman_path\<close> does not skip.\<close>

definition handled :: "(int \<times> int) list \<Rightarrow> (int \<times> int) list" where
  "handled matching = filter (\<lambda>(u, v). u < v) matching"

text \<open>The nodes of a list of pairs.\<close>

definition pair_ends :: "(int \<times> int) list \<Rightarrow> int list" where
  "pair_ends ps = concat (map (\<lambda>(u, v). [u, v]) ps)"

text \<open>The ends of an edge, the second first.\<close>

definition rev_ends :: "int \<times> int \<times> edge_attrs \<Rightarrow> int \<times> int" where
  "rev_ends e = (case e of (a, b, d) \<Rightarrow> (b, a))"

text \<open>\<open>graph[p][q]['weight']\<close> where the edge exists.\<close>

definition weight_of :: "graph \<Rightarrow> int \<Rightarrow> int \<Rightarrow> int" where
  "weight_of g p q = (case get_edge g p q of Inl e \<Rightarrow> 0 | Inr d \<Rightarrow> weight d)"

text \<open>The edges the loop over \<open>pairs(path)\<close> adds.\<close>

definition new_edges :: "graph \<Rightarrow> (int \<times> int) list \<Rightarrow> (int \<times> int \<times> edge_attrs) list" where
  "new_edges g ps =
     map (\<lambda>(p, q). (p, q, \<lparr>weight = weight_of g p q, edge_id = None, path = None\<rparr>)) ps"

text \<open>\<open>odd[u][v]['path']\<close> where the edge exists.\<close>

definition path_of :: "graph \<Rightarrow> int \<Rightarrow> int \<Rightarrow> int list" where
  "path_of odd_gr u v =
     (case get_edge odd_gr u v of
        Inl e \<Rightarrow> []
      | Inr d \<Rightarrow> (case path d of None \<Rightarrow> [] | Some p \<Rightarrow> p))"

text \<open>All the edges the augmentation adds, in the order it adds them.\<close>

definition added_edges :: "graph \<Rightarrow> graph \<Rightarrow> (int \<times> int) list \<Rightarrow> (int \<times> int \<times> edge_attrs) list" where
  "added_edges g odd_gr matching =
     concat (map (\<lambda>(u, v). new_edges g (pairs (path_of odd_gr u v) False)) (handled matching))"

text \<open>The weights of a list of edges.\<close>

definition weights :: "(int \<times> int \<times> edge_attrs) list \<Rightarrow> int list" where
  "weights es = map (\<lambda>(u, v, d). weight d) es"

section \<open>Properties\<close>

subsection \<open>Edge insertion\<close>

lemma nodes_add_node: "set (nodes (add_node g n)) = insert n (set (nodes g))"
  by (auto simp: add_node_def nodes_def)

lemma edges_add_node: "edges (add_node g n) = edges g"
  by (simp add: add_node_def)

lemma nodes_edges_update: "nodes (g\<lparr>edges := es\<rparr>) = nodes g"
  by (simp add: nodes_def)

lemma nodes_add_edge: "set (nodes (add_edge g u v d)) = {u, v} \<union> set (nodes g)"
  by (auto simp: add_edge_def Let_def nodes_edges_update nodes_add_node)

lemma joins_self: "joins u v (u, v, d)"
  by (simp add: joins_def)

lemma find_joins_append:
  "\<not> list_ex (joins u v) es \<Longrightarrow> find (joins u v) (es @ [(u, v, d)]) = Some (u, v, d)"
  by (induction es) (auto simp: joins_def)

lemma find_joins_map:
  "list_ex (joins u v) es \<Longrightarrow>
   \<exists>a b d0. find (joins u v)
       (map (\<lambda>e. if joins u v e then (fst e, fst (snd e), update_attrs (snd (snd e)) d) else e) es)
     = Some (a, b, update_attrs d0 d)"
proof (induction es)
  case Nil
  then show ?case by simp
next
  case (Cons e es)
  obtain a b d0 where e: "e = (a, b, d0)" by (cases e)
  show ?case
  proof (cases "joins u v e")
    case True
    then have "joins u v (a, b, update_attrs d0 d)" by (simp add: e joins_def)
    with True show ?thesis by (auto simp: e)
  next
    case False
    with Cons show ?thesis by auto
  qed
qed

lemma get_edge_add_edge:
  "\<exists>d'. get_edge (add_edge g u v d) u v = Inr d' \<and> weight d' = weight d \<and>
        (edge_id d \<noteq> None \<longrightarrow> edge_id d' = edge_id d)"
proof (cases "list_ex (joins u v) (edges g)")
  case True
  from find_joins_map [OF True, of d] obtain a b d0 where
    "find (joins u v)
       (map (\<lambda>e. if joins u v e then (fst e, fst (snd e), update_attrs (snd (snd e)) d) else e) (edges g))
     = Some (a, b, update_attrs d0 d)" by blast
  with True show ?thesis
    by (auto simp: get_edge_def add_edge_def Let_def edges_add_node update_attrs_def)
next
  case False
  then show ?thesis
    by (simp add: get_edge_def add_edge_def Let_def edges_add_node find_joins_append)
qed

lemma nodes_set_node_attrs: "nodes (set_node_attrs g n f) = nodes g"
  by (auto simp: set_node_attrs_def nodes_def split: prod.splits)

lemma edges_set_node_attrs: "edges (set_node_attrs g n f) = edges g"
  by (simp add: set_node_attrs_def)

lemma get_edge_set_node_attrs: "get_edge (set_node_attrs g n f) u v = get_edge g u v"
  by (simp add: get_edge_def edges_set_node_attrs)

text \<open>
  Claim C8, as stated: an edge with a negative weight or with equal endpoints is refused
  with InvalidEdgeError. The script has no such check and no such exception: the row with
  the length \<open>-5\<close> and the row from node 3 to node 3 are both read into the graph.
\<close>

theorem import_negative_weight_and_self_loop:
  "import_csv_graph [[''1'', ''2'', ''-5'', ''a'', ''x1'', ''y1'', ''x2'', ''y2'']] =
     Inr \<lparr>node = [(1, \<lparr>longitude = Some ''x1'', latitude = Some ''y1''\<rparr>),
                  (2, \<lparr>longitude = Some ''x2'', latitude = Some ''y2''\<rparr>)],
          edges = [(1, 2, \<lparr>weight = - 5, edge_id = Some ''a'', path = None\<rparr>)]\<rparr> \<and>
   import_csv_graph [[''3'', ''3'', ''4'', ''b'', ''x1'', ''y1'', ''x2'', ''y2'']] =
     Inr \<lparr>node = [(3, \<lparr>longitude = Some ''x2'', latitude = Some ''y2''\<rparr>)],
          edges = [(3, 3, \<lparr>weight = 4, edge_id = Some ''b'', path = None\<rparr>)]\<rparr>"
  by code_simp

text \<open>
  Claim C8, amended: a row of at least eight fields whose first field is a string of
  digits and whose second and third fields read as integers is inserted whatever the sign
  of the length and whether or not the two endpoints are equal: the import goes on
  without an error, both endpoints are nodes afterwards (created when absent), and the
  edge between them carries the row's length and identifier.
\<close>

theorem import_row_inserts_edge:
  assumes "isdigit s" and "py_int s = Some u" and "py_int e = Some v" and "py_int l = Some w"
  shows "\<exists>g'. import_rows g [s # e # l # i # slon # slat # elon # elat # rest] = Inr g' \<and>
           set (nodes g') = {u, v} \<union> set (nodes g) \<and>
           (\<exists>d. get_edge g' u v = Inr d \<and> weight d = w \<and> edge_id d = Some i)"
proof -
  define d0 where "d0 = \<lparr>weight = w, edge_id = Some i, path = None\<rparr>"
  obtain d' where d': "get_edge (add_edge g u v d0) u v = Inr d'" "weight d' = w"
    "edge_id d' = Some i"
    using get_edge_add_edge [of g u v d0] by (auto simp: d0_def)
  show ?thesis
    using assms d'
    by (simp add: Let_def nodes_set_node_attrs get_edge_set_node_attrs nodes_add_edge d0_def)
qed

theorem import_row_inserts_edge_witness:
  "\<exists>g'. import_rows empty_graph
          [[''7'', ''7'', '' -3'', ''r'', ''a'', ''b'', ''c'', ''d'', ''extra'']] = Inr g' \<and>
        set (nodes g') = {7, 7} \<union> set (nodes empty_graph) \<and>
        (\<exists>d. get_edge g' 7 7 = Inr d \<and> weight d = - 3 \<and> edge_id d = Some ''r'')"
proof -
  have a: "isdigit ''7''" by code_simp
  have b: "py_int ''7'' = Some 7" by code_simp
  have c: "py_int '' -3'' = Some (- 3)" by code_simp
  show ?thesis using import_row_inserts_edge [OF a b b c] by simp
qed

text \<open>
  The eight fields are needed: with fewer, the unpacking of \<open>row[3:8]\<close> raises
  ValueError before the edge is added.
\<close>

lemma import_short_row:
  "import_csv_graph [[''1'', ''2'', ''5'', ''a'', ''x'', ''y'', ''z'']] = Inl ValueError"
  by code_simp

subsection \<open>Component selection\<close>

lemma hd_insort_key:
  "hd (insort_key f x ys) = (if ys = [] \<or> f x \<le> f (hd ys) then x else hd ys)"
  by (cases ys) auto

lemma sort_key_Nil_iff: "sort_key f xs = [] \<longleftrightarrow> xs = []"
  by (metis length_0_conv length_sort)

lemma hd_sort_key_first_least:
  "xs \<noteq> [] \<Longrightarrow>
   \<exists>i<length xs. hd (sort_key f xs) = xs ! i \<and>
      (\<forall>j<length xs. f (xs ! i) \<le> f (xs ! j)) \<and> (\<forall>j<i. f (xs ! i) < f (xs ! j))"
proof (induction xs)
  case Nil
  then show ?case by simp
next
  case (Cons x xs)
  show ?case
  proof (cases "xs = []")
    case True
    then show ?thesis by simp
  next
    case False
    from Cons.IH [OF False] obtain i where i: "i < length xs" "hd (sort_key f xs) = xs ! i"
      "\<forall>j<length xs. f (xs ! i) \<le> f (xs ! j)" "\<forall>j<i. f (xs ! i) < f (xs ! j)" by blast
    have ne: "sort_key f xs \<noteq> []" using False by (simp add: sort_key_Nil_iff)
    show ?thesis
    proof (cases "f x \<le> f (xs ! i)")
      case True
      have h: "hd (sort_key f (x # xs)) = x"
        using True i(2) by (simp add: hd_insort_key)
      have "\<forall>j<length (x # xs). f x \<le> f ((x # xs) ! j)"
      proof (intro allI impI)
        fix j assume "j < length (x # xs)"
        then show "f x \<le> f ((x # xs) ! j)"
          using True i(3) by (cases j) (auto intro: order_trans)
      qed
      with h show ?thesis by (intro exI [of _ 0]) simp
    next
      case False
      have h: "hd (sort_key f (x # xs)) = (x # xs) ! Suc i"
        using False i(2) ne by (simp add: hd_insort_key)
      have a: "\<forall>j<length (x # xs). f ((x # xs) ! Suc i) \<le> f ((x # xs) ! j)"
      proof (intro allI impI)
        fix j assume "j < length (x # xs)"
        then show "f ((x # xs) ! Suc i) \<le> f ((x # xs) ! j)"
          using False i(3) by (cases j) auto
      qed
      have b: "\<forall>j<Suc i. f ((x # xs) ! Suc i) < f ((x # xs) ! j)"
      proof (intro allI impI)
        fix j assume "j < Suc i"
        then show "f ((x # xs) ! Suc i) < f ((x # xs) ! j)"
          using False i(4) by (cases j) auto
      qed
      from h a b i(1) show ?thesis by (intro exI [of _ "Suc i"]) simp
    qed
  qed
qed

lemma components_loop_length:
  "length comps \<le> length (components_loop g vs (seen, comps))"
proof (induction vs arbitrary: seen comps)
  case Nil
  then show ?case by simp
next
  case (Cons v vs)
  show ?case
  proof (cases "v \<in> set seen")
    case True
    then show ?thesis using Cons.IH [of comps seen] by simp
  next
    case False
    define c where "c = map fst (single_source_shortest_path_length g v)"
    have "length (comps @ [c]) \<le> length (components_loop g vs (add_keys seen c, comps @ [c]))"
      by (rule Cons.IH)
    with False show ?thesis by (simp add: Let_def c_def)
  qed
qed

lemma components_loop_Nil_iff: "components_loop g vs ([], []) = [] \<longleftrightarrow> vs = []"
proof (cases vs)
  case Nil
  then show ?thesis by simp
next
  case (Cons v vs')
  define c where "c = map fst (single_source_shortest_path_length g v)"
  have "length ([] @ [c]) \<le> length (components_loop g vs' (add_keys [] c, [] @ [c]))"
    by (rule components_loop_length)
  then have "components_loop g vs' (add_keys [] c, [c]) \<noteq> []" by auto
  with Cons show ?thesis by (simp add: Let_def c_def)
qed

lemma connected_component_subgraphs_Nil_iff:
  "connected_component_subgraphs g = [] \<longleftrightarrow> nodes g = []"
  by (simp add: connected_component_subgraphs_def connected_components_def sort_reverse_def
      sort_key_Nil_iff components_loop_Nil_iff)

text \<open>
  Claim C7, as stated: the component selector fails with EmptyGraphError on a graph with
  no vertex. The script defines no such exception; on the empty graph the list of
  components is empty and \<open>components[0]\<close> raises IndexError.
\<close>

theorem validate_graph_empty: "validate_graph empty_graph = Inl IndexError"
  by code_simp

text \<open>
  Claim C7, amended: \<open>validate_graph\<close> fails exactly when the graph has no vertex, and
  then with IndexError; for every graph with at least one vertex it returns a component,
  and the warning is printed exactly when there is more than one component.
\<close>

theorem validate_graph_fails_only_when_empty:
  "(nodes g = [] \<longrightarrow> validate_graph g = Inl IndexError) \<and>
   (nodes g \<noteq> [] \<longrightarrow>
      (\<exists>c. validate_graph g = Inr (1 < length (connected_components g), c)))"
proof (cases "nodes g = []")
  case True
  then have "sort_reverse size_of (connected_component_subgraphs g) = []"
    by (simp add: sort_reverse_def sort_key_Nil_iff connected_component_subgraphs_Nil_iff)
  with True show ?thesis by (simp add: validate_graph_def)
next
  case False
  define cs where "cs = sort_reverse size_of (connected_component_subgraphs g)"
  have len: "length cs = length (connected_components g)"
    by (simp add: cs_def sort_reverse_def connected_component_subgraphs_def)
  have "cs \<noteq> []"
    using False
    by (simp add: cs_def sort_reverse_def sort_key_Nil_iff connected_component_subgraphs_Nil_iff)
  then obtain c rest where "cs = c # rest" by (cases cs) auto
  with False len show ?thesis
    by (auto simp: validate_graph_def Let_def cs_def [symmetric])
qed

text \<open>
  Claim C6, amended: the component returned is the induced subgraph of a connected
  component with the greatest number of edges (\<open>size()\<close> counts edges); among the
  components with that many edges it is the first of networkx's component list, which is
  ordered by number of vertices, largest first, and then by discovery.
\<close>

theorem validate_graph_most_edges:
  assumes "validate_graph g = Inr (warning, c)"
  shows "\<exists>i<length (connected_components g).
           c = subgraph g (connected_components g ! i) \<and>
           (\<forall>j<length (connected_components g).
              size_of (subgraph g (connected_components g ! j)) \<le> size_of c) \<and>
           (\<forall>j<i. size_of (subgraph g (connected_components g ! j)) < size_of c)"
proof -
  define cs where "cs = connected_component_subgraphs g"
  define f where "f = (\<lambda>x. - int (size_of x))"
  have ne: "cs \<noteq> []"
    using assms
    by (auto simp: validate_graph_def Let_def cs_def sort_reverse_def sort_key_Nil_iff
        split: list.splits)
  have c: "c = hd (sort_key f cs)"
    using assms
    by (auto simp: validate_graph_def Let_def cs_def sort_reverse_def f_def split: list.splits)
  from hd_sort_key_first_least [OF ne, of f] obtain i where i: "i < length cs"
    "hd (sort_key f cs) = cs ! i" "\<forall>j<length cs. f (cs ! i) \<le> f (cs ! j)"
    "\<forall>j<i. f (cs ! i) < f (cs ! j)" by blast
  have len: "length cs = length (connected_components g)"
    by (simp add: cs_def connected_component_subgraphs_def)
  have nth: "cs ! j = subgraph g (connected_components g ! j)" if "j < length cs" for j
    using that by (simp add: cs_def connected_component_subgraphs_def)
  have ci: "c = subgraph g (connected_components g ! i)" using c i(1,2) nth by simp
  have a: "\<forall>j<length (connected_components g).
              size_of (subgraph g (connected_components g ! j)) \<le> size_of c"
    using i(3) nth c i(2) len by (auto simp: f_def)
  have b: "\<forall>j<i. size_of (subgraph g (connected_components g ! j)) < size_of c"
  proof (intro allI impI)
    fix j assume j: "j < i"
    then have "j < length cs" using i(1) by simp
    then show "size_of (subgraph g (connected_components g ! j)) < size_of c"
      using i(4) j nth c i(2) by (auto simp: f_def)
  qed
  from i(1) len ci a b show ?thesis by auto
qed

theorem validate_graph_fails_only_when_empty_witness:
  "validate_graph empty_graph = Inl IndexError \<and>
   (\<exists>c. validate_graph two_components = Inr (1 < length (connected_components two_components), c)) \<and>
   1 < length (connected_components two_components)"
proof -
  have a: "nodes empty_graph = []" by code_simp
  have b: "nodes two_components \<noteq> []" by code_simp
  have c: "1 < length (connected_components two_components)" by code_simp
  show ?thesis
    using validate_graph_fails_only_when_empty [of empty_graph]
      validate_graph_fails_only_when_empty [of two_components] a b c
    by simp
qed

text \<open>
  Claim C6, as stated: the component with the greatest number of vertices is returned. In
  \<open>two_components\<close> the path has five vertices and four edges, the complete graph four
  vertices and six edges; the complete graph is returned.
\<close>

theorem validate_graph_prefers_edges:
  "validate_graph two_components =
     Inr (True, plain_graph [1, 2, 3, 4]
                  [(1, 2, 1), (1, 3, 1), (1, 4, 1), (2, 3, 1), (2, 4, 1), (3, 4, 1)]) \<and>
   connected_components two_components = [[5, 6, 7, 8, 9], [1, 2, 3, 4]]"
  by code_simp

theorem validate_graph_most_edges_witness:
  "\<exists>c. validate_graph two_components = Inr (True, c) \<and>
     (\<exists>i<length (connected_components two_components).
           c = subgraph two_components (connected_components two_components ! i) \<and>
           (\<forall>j<length (connected_components two_components).
              size_of (subgraph two_components (connected_components two_components ! j)) \<le> size_of c) \<and>
           (\<forall>j<i. size_of (subgraph two_components (connected_components two_components ! j)) < size_of c))"
proof -
  have v: "validate_graph two_components =
     Inr (True, plain_graph [1, 2, 3, 4]
                  [(1, 2, 1), (1, 3, 1), (1, 4, 1), (2, 3, 1), (2, 4, 1), (3, 4, 1)])"
    by code_simp
  show ?thesis using validate_graph_most_edges [OF v] v by blast
qed

subsection \<open>A single node\<close>

lemma degree_no_edges: "edges g = [] \<Longrightarrow> degree g n = 0"
  by (simp add: degree_def)

lemma odd_graph_no_edges: "edges g = [] \<Longrightarrow> odd_graph g = Inr empty_graph"
  by (simp add: odd_graph_def odd_nodes_of_def degree_no_edges)

lemma matchings_empty_graph: "matchings empty_graph = [[]]"
  by (simp add: matchings_def empty_graph_def no_common_end_def)

lemma matching_of_empty_graph: "max_weight_matching_returns empty_graph mate \<Longrightarrow> mate = []"
  by (simp add: max_weight_matching_returns_def matchings_empty_graph is_mate_of_def)

lemma search_no_edges:
  "edges g = [] \<Longrightarrow> single_source_shortest_path_length g n = [(n, 0)]"
proof -
  assume e: "edges g = []"
  have n: "nbrs g n = []" using e by (simp add: nbrs_def)
  show ?thesis
    by (simp add: single_source_shortest_path_length_def bfs_lengths.simps n add_keys_def)
qed

lemma circuit_no_edges: "edges g = [] \<Longrightarrow> eulerian_circuit_returns g circuit \<Longrightarrow> circuit = []"
  by (simp add: eulerian_circuit_returns_def edge_ends_def)

text \<open>
  Claim C10: for a graph of one vertex and no edge, \<open>chinese_postman_path\<close> returns no
  circuit. Nothing raises before the circuit is taken, the circuit the library yields is
  empty, and \<open>circuit[0][0]\<close> raises IndexError.
\<close>

theorem single_node_index_error:
  assumes g: "g = \<lparr>node = [(n, a)], edges = []\<rparr>"
    and m: "matching_from_library g matching"
    and c: "circuit_from_library g matching circuit"
  shows "chinese_postman_path g matching circuit = Inl IndexError"
proof -
  have e: "edges g = []" using g by simp
  have o: "odd_graph g = Inr empty_graph" using e by (rule odd_graph_no_edges)
  have mate: "matching = []"
    using m o by (simp add: matching_from_library_def matching_of_empty_graph)
  have eg: "eulerian_graph_of g matching = Inr g"
    by (simp add: eulerian_graph_of_def o mate)
  have nodes: "nodes g = [n]" using g by (simp add: nodes_def)
  have eu: "is_eulerian g = Inr True"
    by (simp add: is_eulerian_def is_connected_def nodes degree_no_edges [OF e]
        search_no_edges [OF e])
  have "eulerian_circuit_returns g circuit"
    using c by (simp add: circuit_from_library_def eg eu)
  then have "circuit = []" using e by (simp add: circuit_no_edges)
  then show ?thesis by (simp add: chinese_postman_path_def eg eu)
qed

theorem single_node_index_error_witness:
  "matching_from_library (plain_graph [1] []) [] \<and>
   circuit_from_library (plain_graph [1] []) [] [] \<and>
   chinese_postman_path (plain_graph [1] []) [] [] = Inl IndexError"
proof -
  have g: "plain_graph [1] [] = \<lparr>node = [(1, no_attrs)], edges = []\<rparr>"
    by (simp add: plain_graph_def)
  have m: "matching_from_library (plain_graph [1] []) []" by code_simp
  have c: "circuit_from_library (plain_graph [1] []) [] []" by code_simp
  show ?thesis using single_node_index_error [OF g m c] m c by simp
qed

subsection \<open>Distances in odd\_graph\<close>

text \<open>
  Claim C1 at two inputs. For the single edge of weight 5 the edge of the odd graph has
  the weight \<open>-1\<close>, the negated number of edges of the path, where the weighted distance
  is 5. In \<open>detour\<close> the edge between 2 and 1 has the weight \<open>-1\<close> and the path
  \<open>[2, 1]\<close> over the edge of weight 10, where the way through 3 has the weight 2.
\<close>

theorem odd_graph_counts_edges:
  "odd_graph single_edge =
     Inr \<lparr>node = [(2, no_attrs), (1, no_attrs)],
          edges = [(2, 1, \<lparr>weight = - 1, edge_id = None, path = Some [2, 1]\<rparr>)]\<rparr> \<and>
   weighted_distance single_edge 2 1 = Some 5 \<and>
   map_sum id (\<lambda>odd_gr. get_edge odd_gr 2 1) (odd_graph detour) =
     Inr (Inr \<lparr>weight = - 1, edge_id = None, path = Some [2, 1]\<rparr>) \<and>
   weighted_distance detour 2 1 = Some 2"
  by code_simp

text \<open>
  Claim C2 at the graph \<open>shortcuts\<close>. The odd nodes are 1 to 4. The two pairings over
  the long edges, of total weighted distance 20, are the ones the library can return on
  the odd graph; the pairing of 1 with 3 and 2 with 4, of total weighted distance 3, is
  not, because its paths have more edges.
\<close>

theorem matching_minimises_edge_counts:
  "odd_graph shortcuts = Inr shortcuts_odd \<and>
   max_weight_matching_returns shortcuts_odd [(1, 2), (2, 1), (3, 4), (4, 3)] \<and>
   max_weight_matching_returns shortcuts_odd [(1, 4), (4, 1), (2, 3), (3, 2)] \<and>
   \<not> max_weight_matching_returns shortcuts_odd [(1, 3), (3, 1), (2, 4), (4, 2)] \<and>
   map (\<lambda>(u, v). weighted_distance shortcuts u v) [(1, 2), (3, 4), (1, 4), (2, 3), (1, 3), (2, 4)] =
     [Some 10, Some 10, Some 10, Some 10, Some 2, Some 1]"
  by code_simp


subsection \<open>Degrees\<close>

lemma sum_indicator_distinct:
  "distinct ns \<Longrightarrow> sum_list (map (\<lambda>n. if a = n then 1 else 0) ns) = (if a \<in> set ns then 1 else (0::nat))"
  by (induction ns) auto

lemma sum_ends_at:
  assumes "distinct ns" "a \<in> set ns" "b \<in> set ns"
  shows "sum_list (map (\<lambda>n. ends_at n (a, b, d)) ns) = 2"
proof -
  have "sum_list (map (\<lambda>n. ends_at n (a, b, d)) ns) =
        sum_list (map (\<lambda>n. if a = n then 1 else 0) ns) + sum_list (map (\<lambda>n. if b = n then 1 else 0) ns)"
    by (simp add: ends_at_def sum_list_addf)
  with assms show ?thesis by (simp add: sum_indicator_distinct)
qed

lemma sum_degrees_edges:
  assumes "distinct ns" "list_all (\<lambda>(a, b, d). a \<in> set ns \<and> b \<in> set ns) es"
  shows "sum_list (map (\<lambda>n. sum_list (map (ends_at n) es)) ns) = 2 * length es"
  using assms(2)
proof (induction es)
  case Nil
  then show ?case by simp
next
  case (Cons e es)
  obtain a b d where e: "e = (a, b, d)" by (cases e)
  from Cons.prems have ab: "a \<in> set ns" "b \<in> set ns" and rest:
    "list_all (\<lambda>(a, b, d). a \<in> set ns \<and> b \<in> set ns) es"
    by (simp_all add: e)
  have "sum_list (map (\<lambda>n. sum_list (map (ends_at n) (e # es))) ns) =
        sum_list (map (\<lambda>n. ends_at n e) ns) + sum_list (map (\<lambda>n. sum_list (map (ends_at n) es)) ns)"
    by (simp add: sum_list_addf)
  also have "\<dots> = 2 + 2 * length es"
    using sum_ends_at [OF assms(1) ab] Cons.IH [OF rest] by (simp add: e)
  finally show ?case by simp
qed

text \<open>The handshake lemma: the degrees of a graph add up to twice the number of edges.\<close>

lemma handshake: "wf_graph g \<Longrightarrow> sum_list (map (degree g) (nodes g)) = 2 * length (edges g)"
  unfolding wf_graph_def degree_def by (rule sum_degrees_edges) auto

lemma even_odd_terms:
  "even (length (filter (\<lambda>n. f n mod 2 = (1::nat)) ns)) \<longleftrightarrow> even (sum_list (map f ns))"
proof (induction ns)
  case Nil
  then show ?case by simp
next
  case (Cons n ns)
  show ?case
  proof (cases "f n mod 2 = 1")
    case True
    then have "odd (f n)" by presburger
    with Cons.IH True show ?thesis by simp
  next
    case False
    then have "even (f n)" by presburger
    with Cons.IH False show ?thesis by simp
  qed
qed

lemma even_odd_nodes: "wf_graph g \<Longrightarrow> even (length (odd_nodes_of g))"
  using even_odd_terms [of "degree g" "nodes g"] handshake [of g]
  by (simp add: odd_nodes_of_def)

lemma distinct_odd_nodes: "wf_graph g \<Longrightarrow> distinct (odd_nodes_of g)"
  by (simp add: odd_nodes_of_def wf_graph_def)

lemma odd_nodes_are_nodes: "set (odd_nodes_of g) \<subseteq> set (nodes g)"
  by (auto simp: odd_nodes_of_def)

subsection \<open>Walks\<close>

lemma successive_snoc: "successive a (xs @ [w]) = successive a xs @ [(last (a # xs), w)]"
  by (induction xs arbitrary: a) auto

lemma pairs_snoc: "p \<noteq> [] \<Longrightarrow> pairs (p @ [w]) False = pairs p False @ [(last p, w)]"
  by (cases p) (simp_all add: pairs_def successive_snoc)

lemma joins_sym: "joins a b e = joins b a e"
  by (auto simp: joins_def)

lemma adjacent_sym: "sym (adjacent g)"
  by (auto simp: adjacent_def sym_def list_ex_iff joins_def)

lemma adjacent_iff_nbrs: "(a, b) \<in> adjacent g \<longleftrightarrow> b \<in> set (nbrs g a)"
proof
  assume "(a, b) \<in> adjacent g"
  then obtain e where e: "e \<in> set (edges g)" "joins a b e"
    by (auto simp: adjacent_def list_ex_iff)
  then have "touches a e" "other_end a e = b"
    by (auto simp: joins_def touches_def other_end_def)
  with e(1) show "b \<in> set (nbrs g a)"
    by (force simp: nbrs_def)
next
  assume "b \<in> set (nbrs g a)"
  then obtain e where e: "e \<in> set (edges g)" "touches a e" "other_end a e = b"
    by (auto simp: nbrs_def)
  then have "joins a b e"
    by (auto simp: joins_def touches_def other_end_def split: if_splits)
  with e(1) show "(a, b) \<in> adjacent g"
    by (auto simp: adjacent_def list_ex_iff)
qed

lemma walk_single: "walk g s s [s]"
  by (simp add: walk_def pairs_def)

lemma walk_extend:
  assumes "walk g s v pv" "w \<in> set (nbrs g v)"
  shows "walk g s w (pv @ [w])"
proof -
  from assms(1) have ne: "pv \<noteq> []" and l: "last pv = v" by (simp_all add: walk_def)
  have "(v, w) \<in> adjacent g" using assms(2) by (simp add: adjacent_iff_nbrs)
  then have j: "list_ex (joins v w) (edges g)" by (simp add: adjacent_def)
  show ?thesis
    using assms(1) j ne l by (simp add: walk_def pairs_snoc)
qed

lemma adjacent_nodes:
  "wf_graph g \<Longrightarrow> (a, b) \<in> adjacent g \<Longrightarrow> a \<in> set (nodes g) \<and> b \<in> set (nodes g)"
  by (auto simp: wf_graph_def adjacent_def list_ex_iff list_all_iff joins_def)

lemma reachable_nodes:
  assumes "(a, b) \<in> (adjacent g)\<^sup>*" "wf_graph g" "a \<in> set (nodes g)"
  shows "b \<in> set (nodes g)"
  using assms by (induction rule: rtrancl_induct) (auto dest: adjacent_nodes)

lemma reachable_sym: "(a, b) \<in> (adjacent g)\<^sup>* \<Longrightarrow> (b, a) \<in> (adjacent g)\<^sup>*"
  using adjacent_sym [of g] by (meson sym_rtrancl symD)

subsection \<open>The search for paths\<close>

lemma visit_nbrs_inv:
  assumes "visit_nbrs pv ws (paths, nl) = (paths', nl')"
    and "distinct (map fst paths)"
  shows "distinct (map fst paths') \<and> set paths \<subseteq> set paths' \<and>
         fst ` set paths' = fst ` set paths \<union> set ws \<and>
         set nl' = set nl \<union> (set ws - fst ` set paths) \<and>
         (\<forall>(w, p) \<in> set paths' - set paths. w \<in> set ws \<and> p = pv @ [w])"
  using assms
proof (induction ws arbitrary: paths nl)
  case Nil
  then show ?case by simp
next
  case (Cons w ws)
  show ?case
  proof (cases "w \<in> fst ` set paths")
    case True
    with Cons.prems have step: "visit_nbrs pv ws (paths, nl) = (paths', nl')" by simp
    from Cons.IH [OF step Cons.prems(2)] True show ?thesis by auto
  next
    case False
    define paths1 where "paths1 = paths @ [(w, pv @ [w])]"
    from False Cons.prems have step: "visit_nbrs pv ws (paths1, nl @ [w]) = (paths', nl')"
      by (simp add: paths1_def)
    have d1: "distinct (map fst paths1)"
      using False Cons.prems(2) by (simp add: paths1_def)
    note ih = Cons.IH [OF step d1]
    have k1: "fst ` set paths1 = insert w (fst ` set paths)" by (simp add: paths1_def)
    have s1: "set paths1 = insert (w, pv @ [w]) (set paths)" by (simp add: paths1_def)
    have a: "distinct (map fst paths')" using ih by simp
    have b: "set paths \<subseteq> set paths'" using ih s1 by auto
    have c: "fst ` set paths' = fst ` set paths \<union> set (w # ws)" using ih k1 by auto
    have d: "set nl' = set nl \<union> (set (w # ws) - fst ` set paths)"
      using ih k1 False by auto
    have e: "\<forall>(x, p) \<in> set paths' - set paths. x \<in> set (w # ws) \<and> p = pv @ [x]"
      using ih s1 by auto
    from a b c d e show ?thesis by blast
  qed
qed

lemma lookup_path_walk:
  assumes "paths_ok g s paths" "v \<in> fst ` set paths"
  shows "walk g s v (lookup_path paths v)"
proof -
  from assms(2) obtain p where p: "(v, p) \<in> set paths" by auto
  with assms(1) have "map_of paths v = Some p" by (simp add: paths_ok_def)
  moreover from p assms(1) have "walk g s v p" by (auto simp: paths_ok_def)
  ultimately show ?thesis by (simp add: lookup_path_def)
qed

lemma visit_nbrs_ok:
  assumes v: "visit_nbrs (lookup_path paths v) (nbrs g v) (paths, nl) = (paths', nl')"
    and ok: "paths_ok g s paths" and vin: "v \<in> fst ` set paths"
  shows "paths_ok g s paths'"
proof -
  have d: "distinct (map fst paths)" using ok by (simp add: paths_ok_def)
  note i = visit_nbrs_inv [OF v d]
  have w: "walk g s v (lookup_path paths v)" using ok vin by (rule lookup_path_walk)
  have "walk g s x p" if xp: "(x, p) \<in> set paths'" for x p
  proof (cases "(x, p) \<in> set paths")
    case True
    with ok show ?thesis by (auto simp: paths_ok_def)
  next
    case False
    with xp i have "x \<in> set (nbrs g v)" "p = lookup_path paths v @ [x]" by auto
    with w show ?thesis by (simp add: walk_extend)
  qed
  with i show ?thesis by (auto simp: paths_ok_def)
qed

lemma visit_paths_level_inv:
  assumes "visit_paths_level g vs (paths, nl) = (paths', nl')"
    and "paths_ok g s paths" and "set vs \<subseteq> fst ` set paths"
  shows "paths_ok g s paths' \<and> set paths \<subseteq> set paths' \<and>
         fst ` set paths' = fst ` set paths \<union> (\<Union>v\<in>set vs. set (nbrs g v)) \<and>
         set nl' = set nl \<union> (fst ` set paths' - fst ` set paths)"
  using assms
proof (induction vs arbitrary: paths nl)
  case Nil
  then show ?case by auto
next
  case (Cons v vs)
  obtain p1 n1 where s1: "visit_nbrs (lookup_path paths v) (nbrs g v) (paths, nl) = (p1, n1)"
    by (cases "visit_nbrs (lookup_path paths v) (nbrs g v) (paths, nl)")
  with Cons.prems(1) have s2: "visit_paths_level g vs (p1, n1) = (paths', nl')" by simp
  have vin: "v \<in> fst ` set paths" using Cons.prems(3) by simp
  have d: "distinct (map fst paths)" using Cons.prems(2) by (simp add: paths_ok_def)
  have ok1: "paths_ok g s p1" using s1 Cons.prems(2) vin by (rule visit_nbrs_ok)
  define K K1 K' N where "K = fst ` set paths" and "K1 = fst ` set p1"
    and "K' = fst ` set paths'" and "N = (\<Union>v\<in>set vs. set (nbrs g v))"
  have i1: "set paths \<subseteq> set p1" "K1 = K \<union> set (nbrs g v)"
    "set n1 = set nl \<union> (set (nbrs g v) - K)"
    using visit_nbrs_inv [OF s1 d] by (simp_all add: K_def K1_def)
  have sub: "set vs \<subseteq> fst ` set p1" using Cons.prems(3) i1(2) by (auto simp: K_def K1_def)
  have i2: "paths_ok g s paths'" "set p1 \<subseteq> set paths'" "K' = K1 \<union> N"
    "set nl' = set n1 \<union> (K' - K1)"
    using Cons.IH [OF s2 ok1 sub] by (simp_all add: K1_def K'_def N_def)
  have a: "set paths \<subseteq> set paths'" using i1(1) i2(2) by blast
  have b: "K' = K \<union> (set (nbrs g v) \<union> N)" using i1(2) i2(3) by blast
  have c: "set nl' = set nl \<union> (K' - K)" using i1(2,3) i2(3,4) by blast
  from i2(1) a b c show ?case by (simp add: K_def K'_def N_def)
qed

lemma bfs_paths_inv:
  assumes "paths_ok g s paths" and "set nl \<subseteq> fst ` set paths"
    and "\<forall>v \<in> fst ` set paths - set nl. set (nbrs g v) \<subseteq> fst ` set paths"
  shows "paths_ok g s (bfs_paths g paths nl) \<and>
         fst ` set paths \<subseteq> fst ` set (bfs_paths g paths nl) \<and>
         (\<forall>v \<in> fst ` set (bfs_paths g paths nl).
             set (nbrs g v) \<subseteq> fst ` set (bfs_paths g paths nl))"
  using assms
proof (induction g paths nl rule: bfs_paths.induct)
  case (1 g paths nextlevel)
  show ?case
  proof (cases "nextlevel = []")
    case True
    then have "bfs_paths g paths nextlevel = paths" by (simp add: bfs_paths.simps)
    with "1.prems" True show ?thesis by simp
  next
    case False
    obtain paths' nl' where v: "visit_paths_level g nextlevel (paths, []) = (paths', nl')"
      by (cases "visit_paths_level g nextlevel (paths, [])")
    have r: "bfs_paths g paths nextlevel = bfs_paths g paths' nl'"
      using False v by (simp add: bfs_paths.simps [of g paths nextlevel])
    define K K' N where "K = fst ` set paths" and "K' = fst ` set paths'"
      and "N = (\<lambda>v. set (nbrs g v))"
    have i: "paths_ok g s paths'" "K' = K \<union> (\<Union>v\<in>set nextlevel. N v)" "set nl' = K' - K"
      using visit_paths_level_inv [OF v "1.prems"(1,2)] by (simp_all add: K_def K'_def N_def)
    have cl: "\<forall>v \<in> K - set nextlevel. N v \<subseteq> K" using "1.prems"(3) by (simp add: K_def N_def)
    have sub: "set nextlevel \<subseteq> K" using "1.prems"(2) by (simp add: K_def)
    have a: "set nl' \<subseteq> K'" using i(3) by blast
    have b: "\<forall>v \<in> K' - set nl'. N v \<subseteq> K'"
    proof
      fix v assume "v \<in> K' - set nl'"
      then have vk: "v \<in> K" using i(3) by blast
      show "N v \<subseteq> K'"
      proof (cases "v \<in> set nextlevel")
        case True
        then show ?thesis using i(2) by blast
      next
        case False
        with vk cl have "N v \<subseteq> K" by blast
        then show ?thesis using i(2) by blast
      qed
    qed
    have ih: "paths_ok g s (bfs_paths g paths' nl') \<and>
         fst ` set paths' \<subseteq> fst ` set (bfs_paths g paths' nl') \<and>
         (\<forall>v \<in> fst ` set (bfs_paths g paths' nl').
             set (nbrs g v) \<subseteq> fst ` set (bfs_paths g paths' nl'))"
      using a b by (intro "1.IH" [OF False v [symmetric] i(1)]) (simp_all add: K'_def N_def)
    have "K \<subseteq> K'" using i(2) by blast
    with ih r show ?thesis by (auto simp: K_def K'_def)
  qed
qed

lemma shortest_path_inv:
  "paths_ok g s (single_source_shortest_path g s) \<and>
   s \<in> fst ` set (single_source_shortest_path g s) \<and>
   (\<forall>v \<in> fst ` set (single_source_shortest_path g s).
       set (nbrs g v) \<subseteq> fst ` set (single_source_shortest_path g s))"
proof -
  have ok: "paths_ok g s [(s, [s])]" by (simp add: paths_ok_def walk_single)
  have "paths_ok g s (bfs_paths g [(s, [s])] [s]) \<and>
         fst ` set [(s, [s])] \<subseteq> fst ` set (bfs_paths g [(s, [s])] [s]) \<and>
         (\<forall>v \<in> fst ` set (bfs_paths g [(s, [s])] [s]).
             set (nbrs g v) \<subseteq> fst ` set (bfs_paths g [(s, [s])] [s]))"
    by (rule bfs_paths_inv [OF ok]) simp_all
  then show ?thesis by (simp add: single_source_shortest_path_def)
qed

lemma closed_reachable:
  assumes "(s, v) \<in> (adjacent g)\<^sup>*" "s \<in> K" "\<forall>a \<in> K. set (nbrs g a) \<subseteq> K"
  shows "v \<in> K"
  using assms by (induction rule: rtrancl_induct) (auto simp: adjacent_iff_nbrs)

lemma shortest_path_complete:
  assumes "(s, v) \<in> (adjacent g)\<^sup>*"
  shows "\<exists>p. map_of (shortest_path g s) v = Some p \<and> walk g s v p"
proof -
  define P where "P = single_source_shortest_path g s"
  have i: "paths_ok g s P" "s \<in> fst ` set P" "\<forall>a \<in> fst ` set P. set (nbrs g a) \<subseteq> fst ` set P"
    using shortest_path_inv [of g s] by (simp_all add: P_def)
  have "v \<in> fst ` set P" using assms i(2,3) by (rule closed_reachable)
  then obtain p where p: "(v, p) \<in> set P" by auto
  with i(1) have "map_of P v = Some p" "walk g s v p" by (auto simp: paths_ok_def)
  then show ?thesis by (auto simp: shortest_path_def P_def)
qed

subsection \<open>The search for lengths\<close>

lemma visit_level_inv:
  assumes "visit_level g level vs (seen, nl) = (seen', nl')" and "distinct (map fst seen)"
  shows "distinct (map fst seen') \<and> fst ` set seen' = fst ` set seen \<union> set vs \<and>
         set nl' = set nl \<union> (\<Union>v \<in> set vs - fst ` set seen. set (nbrs g v))"
  using assms
proof (induction vs arbitrary: seen nl)
  case Nil
  then show ?case by simp
next
  case (Cons v vs)
  show ?case
  proof (cases "v \<in> fst ` set seen")
    case True
    with Cons.prems have step: "visit_level g level vs (seen, nl) = (seen', nl')" by simp
    have e: "set (v # vs) - fst ` set seen = set vs - fst ` set seen" using True by auto
    from Cons.IH [OF step Cons.prems(2)] True show ?thesis unfolding e by auto
  next
    case False
    define seen1 where "seen1 = seen @ [(v, level)]"
    from False Cons.prems have step:
      "visit_level g level vs (seen1, add_keys nl (nbrs g v)) = (seen', nl')"
      by (simp add: seen1_def)
    have d1: "distinct (map fst seen1)" using False Cons.prems(2) by (simp add: seen1_def)
    define K K1 K' N where "K = fst ` set seen" and "K1 = fst ` set seen1"
      and "K' = fst ` set seen'" and "N = (\<lambda>v. set (nbrs g v))"
    have k1: "K1 = insert v K" by (simp add: K1_def K_def seen1_def)
    have ih: "distinct (map fst seen')" "K' = K1 \<union> set vs"
      "set nl' = set nl \<union> N v \<union> (\<Union>x \<in> set vs - K1. N x)"
      using Cons.IH [OF step d1] by (simp_all add: K1_def K'_def N_def set_add_keys)
    have vk: "v \<notin> K" using False by (simp add: K_def)
    have a: "K' = K \<union> set (v # vs)" using ih(2) k1 by auto
    have "(\<Union>x \<in> set (v # vs) - K. N x) = N v \<union> (\<Union>x \<in> set vs - K1. N x)"
      using vk k1 by auto
    then have b: "set nl' = set nl \<union> (\<Union>x \<in> set (v # vs) - K. N x)" using ih(3) by auto
    from ih(1) a b show ?thesis by (simp add: K_def K'_def N_def)
  qed
qed

lemma bfs_lengths_inv:
  assumes "distinct (map fst seen)" and "s \<in> fst ` set seen \<union> set nl"
    and "\<forall>v \<in> fst ` set seen. set (nbrs g v) \<subseteq> fst ` set seen \<union> set nl"
    and "\<forall>v \<in> fst ` set seen \<union> set nl. (s, v) \<in> (adjacent g)\<^sup>*"
  shows "distinct (map fst (bfs_lengths g seen level nl)) \<and>
         s \<in> fst ` set (bfs_lengths g seen level nl) \<and>
         (\<forall>v \<in> fst ` set (bfs_lengths g seen level nl).
             set (nbrs g v) \<subseteq> fst ` set (bfs_lengths g seen level nl)) \<and>
         (\<forall>v \<in> fst ` set (bfs_lengths g seen level nl). (s, v) \<in> (adjacent g)\<^sup>*)"
  using assms
proof (induction g seen level nl rule: bfs_lengths.induct)
  case (1 g seen level nextlevel)
  show ?case
  proof (cases "nextlevel = []")
    case True
    then have "bfs_lengths g seen level nextlevel = seen" by (simp add: bfs_lengths.simps)
    with "1.prems" True show ?thesis by simp
  next
    case False
    obtain seen' nl' where v: "visit_level g level nextlevel (seen, []) = (seen', nl')"
      by (cases "visit_level g level nextlevel (seen, [])")
    have r: "bfs_lengths g seen level nextlevel = bfs_lengths g seen' (level + 1) nl'"
      using False v by (simp add: bfs_lengths.simps [of g seen level nextlevel])
    define K K' N R where "K = fst ` set seen" and "K' = fst ` set seen'"
      and "N = (\<lambda>v. set (nbrs g v))" and "R = {v. (s, v) \<in> (adjacent g)\<^sup>*}"
    have i: "distinct (map fst seen')" "K' = K \<union> set nextlevel"
      "set nl' = (\<Union>v \<in> set nextlevel - K. N v)"
      using visit_level_inv [OF v "1.prems"(1)] by (simp_all add: K_def K'_def N_def)
    have p: "s \<in> K \<union> set nextlevel" "\<forall>v \<in> K. N v \<subseteq> K \<union> set nextlevel"
      "K \<union> set nextlevel \<subseteq> R"
      using "1.prems"(2,3,4) by (auto simp: K_def N_def R_def)
    have step: "N a \<subseteq> R" if "a \<in> R" for a
      using that by (auto simp: N_def R_def adjacent_iff_nbrs [symmetric] intro: rtrancl_into_rtrancl)
    have a: "s \<in> K' \<union> set nl'" using p(1) i(2) by blast
    have b: "\<forall>v \<in> K'. N v \<subseteq> K' \<union> set nl'"
    proof
      fix v assume "v \<in> K'"
      then consider "v \<in> K" | "v \<in> set nextlevel - K" using i(2) by blast
      then show "N v \<subseteq> K' \<union> set nl'"
      proof cases
        case 1
        with p(2) i(2) show ?thesis by blast
      next
        case 2
        with i(3) show ?thesis by blast
      qed
    qed
    have c: "K' \<union> set nl' \<subseteq> R"
    proof -
      have "K' \<subseteq> R" using i(2) p(3) by blast
      moreover have "set nl' \<subseteq> R" using i(3) p(3) step by blast
      ultimately show ?thesis by blast
    qed
    have ih: "distinct (map fst (bfs_lengths g seen' (level + 1) nl')) \<and>
         s \<in> fst ` set (bfs_lengths g seen' (level + 1) nl') \<and>
         (\<forall>v \<in> fst ` set (bfs_lengths g seen' (level + 1) nl').
             set (nbrs g v) \<subseteq> fst ` set (bfs_lengths g seen' (level + 1) nl')) \<and>
         (\<forall>v \<in> fst ` set (bfs_lengths g seen' (level + 1) nl'). (s, v) \<in> (adjacent g)\<^sup>*)"
      using a b c
      by (intro "1.IH" [OF False v [symmetric] i(1)]) (auto simp: K'_def N_def R_def)
    with r show ?thesis by simp
  qed
qed

lemma shortest_path_length_keys:
  "distinct (map fst (shortest_path_length g s)) \<and>
   fst ` set (shortest_path_length g s) = {v. (s, v) \<in> (adjacent g)\<^sup>*}"
proof -
  define L where "L = bfs_lengths g [] 0 [s]"
  have i: "distinct (map fst L)" "s \<in> fst ` set L"
    "\<forall>v \<in> fst ` set L. set (nbrs g v) \<subseteq> fst ` set L"
    "\<forall>v \<in> fst ` set L. (s, v) \<in> (adjacent g)\<^sup>*"
    using bfs_lengths_inv [of "[]" s "[s]" g 0] by (simp_all add: L_def)
  have "v \<in> fst ` set L" if "(s, v) \<in> (adjacent g)\<^sup>*" for v
    using that i(2,3) by (rule closed_reachable)
  with i(1,4) show ?thesis
    by (auto simp: shortest_path_length_def single_source_shortest_path_length_def L_def)
qed

lemma shortest_path_length_complete:
  "(s, v) \<in> (adjacent g)\<^sup>* \<Longrightarrow> \<exists>l. map_of (shortest_path_length g s) v = Some l"
proof -
  assume "(s, v) \<in> (adjacent g)\<^sup>*"
  then have "v \<in> fst ` set (shortest_path_length g s)"
    using shortest_path_length_keys [of g s] by simp
  then show ?thesis by (metis domIff dom_map_of_conv_image_fst not_None_eq)
qed

subsection \<open>Connected graphs\<close>

lemma is_connected_iff:
  assumes wf: "wf_graph g" and ne: "nodes g \<noteq> []"
  shows "is_connected g = Inr True \<longleftrightarrow> connected g"
proof -
  obtain n ns where n: "nodes g = n # ns" using ne by (cases "nodes g") auto
  define L where "L = map fst (single_source_shortest_path_length g n)"
  define R where "R = {v. (n, v) \<in> (adjacent g)\<^sup>*}"
  have L: "distinct L" "set L = R"
    using shortest_path_length_keys [of g n]
    by (simp_all add: L_def R_def shortest_path_length_def)
  have nin: "n \<in> set (nodes g)" using n by simp
  have sub: "R \<subseteq> set (nodes g)"
    using reachable_nodes [OF _ wf nin] by (auto simp: R_def)
  have d: "distinct (nodes g)" using wf by (simp add: wf_graph_def)
  have "is_connected g = Inr True \<longleftrightarrow> length L = length (nodes g)"
    by (simp add: is_connected_def n L_def)
  also have "\<dots> \<longleftrightarrow> card R = card (set (nodes g))"
    using L d by (metis distinct_card)
  also have "\<dots> \<longleftrightarrow> R = set (nodes g)"
    using sub by (metis List.finite_set card_subset_eq)
  also have "\<dots> \<longleftrightarrow> connected g"
  proof
    assume eq: "R = set (nodes g)"
    show "connected g"
      unfolding connected_def
    proof (intro ballI)
      fix u v assume "u \<in> set (nodes g)" "v \<in> set (nodes g)"
      then have "(n, u) \<in> (adjacent g)\<^sup>*" "(n, v) \<in> (adjacent g)\<^sup>*"
        using eq by (auto simp: R_def)
      then show "(u, v) \<in> (adjacent g)\<^sup>*"
        by (meson reachable_sym rtrancl_trans)
    qed
  next
    assume "connected g"
    then have "set (nodes g) \<subseteq> R" using nin by (auto simp: connected_def R_def)
    with sub show "R = set (nodes g)" by blast
  qed
  finally show ?thesis .
qed

subsection \<open>The graph of odd nodes\<close>

lemma edges_add_edge:
  "edges (add_edge g u v d) =
     (if list_ex (joins u v) (edges g)
      then map (\<lambda>e. if joins u v e then (fst e, fst (snd e), update_attrs (snd (snd e)) d) else e)
             (edges g)
      else edges g @ [(u, v, d)])"
  by (simp add: add_edge_def Let_def edges_add_node)

lemma joins_update: "joins a b (fst e, fst (snd e), d) = joins a b e"
  by (cases e) (simp add: joins_def)

lemma add_edge_joins:
  "list_ex (joins a b) (edges (add_edge g u v d)) \<longleftrightarrow>
   list_ex (joins a b) (edges g) \<or> joins a b (u, v, d)"
proof (cases "list_ex (joins u v) (edges g)")
  case True
  have "list_ex (joins a b)
          (map (\<lambda>e. if joins u v e then (fst e, fst (snd e), update_attrs (snd (snd e)) d) else e) es)
        = list_ex (joins a b) es" for es
    by (induction es) (auto simp: joins_update)
  moreover have "joins a b (u, v, d) \<Longrightarrow> list_ex (joins a b) (edges g)"
    using True by (auto simp: list_ex_iff joins_def)
  ultimately show ?thesis using True by (auto simp: edges_add_edge)
next
  case False
  then show ?thesis by (auto simp: edges_add_edge)
qed

lemma odd_edges_ok_add_edge:
  assumes ok: "odd_edges_ok g r" and u: "u \<in> set (odd_nodes_of g)" and v: "v \<in> set (odd_nodes_of g)"
    and lt: "v < u" and w: "walk g u v p"
  shows "odd_edges_ok g (add_edge r u v \<lparr>weight = l, edge_id = None, path = Some p\<rparr>)"
proof -
  define d where "d = \<lparr>weight = l, edge_id = None, path = Some p\<rparr>"
  have "a \<in> set (odd_nodes_of g) \<and> b \<in> set (odd_nodes_of g) \<and> b < a \<and>
        (\<exists>q. path d' = Some q \<and> walk g a b q)"
    if e: "(a, b, d') \<in> set (edges (add_edge r u v d))" for a b d'
  proof (cases "list_ex (joins u v) (edges r)")
    case False
    with e have "(a, b, d') \<in> set (edges r) \<or> (a, b, d') = (u, v, d)"
      by (auto simp: edges_add_edge)
    then show ?thesis
    proof
      assume "(a, b, d') \<in> set (edges r)"
      with ok show ?thesis by (auto simp: odd_edges_ok_def)
    next
      assume "(a, b, d') = (u, v, d)"
      with u v lt w show ?thesis by (simp add: d_def)
    qed
  next
    case True
    with e obtain e0 where e0: "e0 \<in> set (edges r)"
      "(a, b, d') = (if joins u v e0 then (fst e0, fst (snd e0), update_attrs (snd (snd e0)) d) else e0)"
      by (auto simp: edges_add_edge)
    obtain a0 b0 d0 where e0': "e0 = (a0, b0, d0)" by (cases e0)
    from ok e0(1) have p0: "a0 \<in> set (odd_nodes_of g)" "b0 \<in> set (odd_nodes_of g)" "b0 < a0"
      "\<exists>q. path d0 = Some q \<and> walk g a0 b0 q"
      by (auto simp: odd_edges_ok_def e0')
    show ?thesis
    proof (cases "joins u v e0")
      case False
      with e0(2) p0 show ?thesis by (simp add: e0')
    next
      case True
      with p0(3) lt have "a0 = u" "b0 = v" by (auto simp: joins_def e0')
      with True e0(2) u v lt w show ?thesis
        by (simp add: e0' update_attrs_def d_def)
    qed
  qed
  then show ?thesis unfolding odd_edges_ok_def d_def by blast
qed

lemma odd_inner_ok:
  assumes "odd_edges_ok g r" and "u \<in> set (odd_nodes_of g)" and "set vs \<subseteq> set (odd_nodes_of g)"
    and "\<forall>v \<in> set vs. (\<exists>l. map_of lengths v = Some l) \<and> (\<exists>p. map_of paths v = Some p \<and> walk g u v p)"
  shows "\<exists>r'. odd_inner u paths lengths vs r = Inr r' \<and> odd_edges_ok g r' \<and>
           (\<forall>a b. list_ex (joins a b) (edges r) \<longrightarrow> list_ex (joins a b) (edges r')) \<and>
           (\<forall>v \<in> set vs. v < u \<longrightarrow> list_ex (joins u v) (edges r'))"
  using assms
proof (induction vs arbitrary: r)
  case Nil
  then show ?case by simp
next
  case (Cons v vs)
  have rest: "set vs \<subseteq> set (odd_nodes_of g)"
    "\<forall>v \<in> set vs. (\<exists>l. map_of lengths v = Some l) \<and> (\<exists>p. map_of paths v = Some p \<and> walk g u v p)"
    using Cons.prems(3,4) by auto
  show ?case
  proof (cases "u \<le> v")
    case True
    from Cons.IH [OF Cons.prems(1,2) rest] obtain r' where
      r': "odd_inner u paths lengths vs r = Inr r'" "odd_edges_ok g r'"
      "\<forall>a b. list_ex (joins a b) (edges r) \<longrightarrow> list_ex (joins a b) (edges r')"
      "\<forall>v \<in> set vs. v < u \<longrightarrow> list_ex (joins u v) (edges r')" by blast
    with True show ?thesis by auto
  next
    case False
    from Cons.prems(4) obtain l p where lp: "map_of lengths v = Some l" "map_of paths v = Some p"
      "walk g u v p" by auto
    define r1 where "r1 = add_edge r u v \<lparr>weight = - int l, edge_id = None, path = Some p\<rparr>"
    have vin: "v \<in> set (odd_nodes_of g)" using Cons.prems(3) by simp
    have ok1: "odd_edges_ok g r1"
      unfolding r1_def using Cons.prems(1,2) vin _ lp(3)
      by (rule odd_edges_ok_add_edge) (use False in simp)
    from Cons.IH [OF ok1 Cons.prems(2) rest] obtain r' where
      r': "odd_inner u paths lengths vs r1 = Inr r'" "odd_edges_ok g r'"
      "\<forall>a b. list_ex (joins a b) (edges r1) \<longrightarrow> list_ex (joins a b) (edges r')"
      "\<forall>v \<in> set vs. v < u \<longrightarrow> list_ex (joins u v) (edges r')" by blast
    have m1: "list_ex (joins a b) (edges r) \<Longrightarrow> list_ex (joins a b) (edges r1)" for a b
      by (simp add: r1_def add_edge_joins)
    have j1: "list_ex (joins u v) (edges r1)"
      by (simp add: r1_def add_edge_joins joins_def)
    have res: "odd_inner u paths lengths (v # vs) r = Inr r'"
      using False lp r'(1) by (simp add: r1_def)
    have mono: "\<forall>a b. list_ex (joins a b) (edges r) \<longrightarrow> list_ex (joins a b) (edges r')"
      using m1 r'(3) by blast
    have cov: "\<forall>x \<in> set (v # vs). x < u \<longrightarrow> list_ex (joins u x) (edges r')"
      using j1 r'(3,4) by auto
    from res r'(2) mono cov show ?thesis by blast
  qed
qed

lemma odd_outer_ok:
  assumes "odd_edges_ok g r" and "set us \<subseteq> set (odd_nodes_of g)"
    and "\<forall>u \<in> set us. \<forall>v \<in> set (odd_nodes_of g). (u, v) \<in> (adjacent g)\<^sup>*"
  shows "\<exists>r'. odd_outer g (odd_nodes_of g) us r = Inr r' \<and> odd_edges_ok g r' \<and>
           (\<forall>a b. list_ex (joins a b) (edges r) \<longrightarrow> list_ex (joins a b) (edges r')) \<and>
           (\<forall>u \<in> set us. \<forall>v \<in> set (odd_nodes_of g). v < u \<longrightarrow> list_ex (joins u v) (edges r'))"
  using assms
proof (induction us arbitrary: r)
  case Nil
  then show ?case by simp
next
  case (Cons u us)
  have uin: "u \<in> set (odd_nodes_of g)" using Cons.prems(2) by simp
  have look: "\<forall>v \<in> set (odd_nodes_of g).
      (\<exists>l. map_of (shortest_path_length g u) v = Some l) \<and>
      (\<exists>p. map_of (shortest_path g u) v = Some p \<and> walk g u v p)"
    using Cons.prems(3) shortest_path_complete shortest_path_length_complete by simp
  from odd_inner_ok [OF Cons.prems(1) uin subset_refl look] obtain r1 where
    r1: "odd_inner u (shortest_path g u) (shortest_path_length g u) (odd_nodes_of g) r = Inr r1"
    "odd_edges_ok g r1"
    "\<forall>a b. list_ex (joins a b) (edges r) \<longrightarrow> list_ex (joins a b) (edges r1)"
    "\<forall>v \<in> set (odd_nodes_of g). v < u \<longrightarrow> list_ex (joins u v) (edges r1)" by blast
  have rest: "set us \<subseteq> set (odd_nodes_of g)"
    "\<forall>u \<in> set us. \<forall>v \<in> set (odd_nodes_of g). (u, v) \<in> (adjacent g)\<^sup>*"
    using Cons.prems(2,3) by auto
  from Cons.IH [OF r1(2) rest] obtain r' where
    r': "odd_outer g (odd_nodes_of g) us r1 = Inr r'" "odd_edges_ok g r'"
    "\<forall>a b. list_ex (joins a b) (edges r1) \<longrightarrow> list_ex (joins a b) (edges r')"
    "\<forall>u \<in> set us. \<forall>v \<in> set (odd_nodes_of g). v < u \<longrightarrow> list_ex (joins u v) (edges r')"
    by blast
  have res: "odd_outer g (odd_nodes_of g) (u # us) r = Inr r'"
    using r1(1) r'(1) by (simp add: Let_def)
  have mono: "\<forall>a b. list_ex (joins a b) (edges r) \<longrightarrow> list_ex (joins a b) (edges r')"
    using r1(3) r'(3) by blast
  have cov: "\<forall>x \<in> set (u # us). \<forall>v \<in> set (odd_nodes_of g). v < x \<longrightarrow> list_ex (joins x v) (edges r')"
    using r1(4) r'(3,4) by auto
  from res r'(2) mono cov show ?case by blast
qed

text \<open>
  On a connected graph \<open>odd_graph\<close> raises nothing; its edges run between odd nodes, from
  the larger to the smaller, each with a walk of the base graph as its path, and every two
  odd nodes are joined.
\<close>

lemma odd_graph_ok:
  assumes "connected g"
  shows "\<exists>og. odd_graph g = Inr og \<and> odd_edges_ok g og \<and>
           (\<forall>u \<in> set (odd_nodes_of g). \<forall>v \<in> set (odd_nodes_of g).
               v < u \<longrightarrow> list_ex (joins u v) (edges og))"
proof -
  have e: "odd_edges_ok g empty_graph" by (simp add: odd_edges_ok_def empty_graph_def)
  have r: "\<forall>u \<in> set (odd_nodes_of g). \<forall>v \<in> set (odd_nodes_of g). (u, v) \<in> (adjacent g)\<^sup>*"
    using assms odd_nodes_are_nodes [of g] by (auto simp: connected_def)
  from odd_outer_ok [OF e subset_refl r] show ?thesis
    by (auto simp: odd_graph_def Let_def)
qed

subsection \<open>The matching is perfect\<close>

lemma no_common_end_ends: "no_common_end m = distinct (ends m)"
  by (simp add: no_common_end_def ends_def)

lemma mset_ends: "mset (ends m) = (\<Sum>(a, b, d) \<leftarrow> m. {#a, b#})"
  by (induction m) (auto simp: ends_def)

lemma mset_ends_cong: "mset m = mset m' \<Longrightarrow> mset (ends m) = mset (ends m')"
proof -
  assume e: "mset m = mset m'"
  have "mset (ends xs) = sum_mset (image_mset (\<lambda>(a, b, d). {#a, b#}) (mset xs))" for xs
    by (induction xs) (auto simp: ends_def)
  with e show ?thesis by simp
qed

lemma length_ends: "length (ends m) = 2 * length m"
  by (induction m) (auto simp: ends_def)

lemma subseq_extend:
  assumes "subseq m es" "e \<in> set es" "e \<notin> set m"
  shows "\<exists>m'. subseq m' es \<and> mset m' = add_mset e (mset m)"
  using assms
proof (induction rule: list_emb.induct)
  case (list_emb_Nil ys)
  then have "subseq [e] ys" by (simp add: subseq_singleton_left)
  then show ?case by (intro exI [of _ "[e]"]) simp
next
  case (list_emb_Cons xs ys y)
  show ?case
  proof (cases "e \<in> set ys")
    case True
    from list_emb_Cons.IH [OF True list_emb_Cons.prems(2)] obtain m' where
      "subseq m' ys" "mset m' = add_mset e (mset xs)" by blast
    then show ?thesis by (intro exI [of _ m']) auto
  next
    case False
    with list_emb_Cons.prems(1) have "e = y" by simp
    with list_emb_Cons.hyps show ?thesis by (intro exI [of _ "y # xs"]) auto
  qed
next
  case (list_emb_Cons2 x y xs ys)
  then have "e \<in> set ys" "e \<notin> set xs" by auto
  from list_emb_Cons2.IH [OF this] obtain m' where
    "subseq m' ys" "mset m' = add_mset e (mset xs)" by blast
  with list_emb_Cons2.hyps(1) show ?case by (intro exI [of _ "x # m'"]) auto
qed

lemma matchings_iff: "m \<in> set (matchings g) \<longleftrightarrow> subseq m (edges g) \<and> no_common_end m"
  by (auto simp: matchings_def)

lemma ends_Nil: "ends [] = []"
  by (simp add: ends_def)

lemma ends_Cons: "ends ((a, b, d) # m) = a # b # ends m"
  by (simp add: ends_def)

lemma in_ends_iff: "x \<in> set (ends m) \<longleftrightarrow> (\<exists>a b d. (a, b, d) \<in> set m \<and> (x = a \<or> x = b))"
proof (induction m)
  case Nil
  then show ?case by (simp add: ends_Nil)
next
  case (Cons e m)
  obtain a b d where e: "e = (a, b, d)" by (cases e)
  show ?case unfolding e ends_Cons using Cons.IH by auto
qed

lemma ends_odd:
  assumes "odd_edges_ok g og" "subseq m (edges og)"
  shows "set (ends m) \<subseteq> set (odd_nodes_of g)"
proof
  fix x assume "x \<in> set (ends m)"
  then obtain a b d where abd: "(a, b, d) \<in> set m" "x = a \<or> x = b"
    by (auto simp: in_ends_iff)
  have "(a, b, d) \<in> set (edges og)" using assms(2) abd(1) by (rule list_emb_set [THEN exE]) auto
  with assms(1) have "a \<in> set (odd_nodes_of g)" "b \<in> set (odd_nodes_of g)"
    by (auto simp: odd_edges_ok_def)
  with abd(2) show "x \<in> set (odd_nodes_of g)" by auto
qed

lemma matching_perfect:
  assumes wf: "wf_graph g" and ok: "odd_edges_ok g og"
    and full: "\<forall>u \<in> set (odd_nodes_of g). \<forall>v \<in> set (odd_nodes_of g).
                  v < u \<longrightarrow> list_ex (joins u v) (edges og)"
    and m: "m \<in> set (matchings og)"
    and mx: "\<forall>m' \<in> set (matchings og). length m' \<le> length m"
  shows "set (ends m) = set (odd_nodes_of g)"
proof (rule ccontr)
  assume ne: "set (ends m) \<noteq> set (odd_nodes_of g)"
  define E Od where "E = set (ends m)" and "Od = set (odd_nodes_of g)"
  have sub: "subseq m (edges og)" and dis: "distinct (ends m)"
    using m by (simp_all add: matchings_iff no_common_end_ends)
  have EO: "E \<subseteq> Od" using ends_odd [OF ok sub] by (simp add: E_def Od_def)
  have cE: "card E = 2 * length m" using dis by (simp add: E_def distinct_card length_ends)
  have cO: "even (card Od)"
    using even_odd_nodes [OF wf] distinct_odd_nodes [OF wf] by (simp add: Od_def distinct_card)
  have fin: "finite Od" by (simp add: Od_def)
  have "card (Od - E) = card Od - card E" using EO fin by (simp add: card_Diff_subset finite_subset)
  moreover have "card E \<le> card Od" using EO fin by (simp add: card_mono)
  ultimately have ev: "even (card (Od - E))" using cE cO by simp
  have "Od - E \<noteq> {}" using ne EO by (auto simp: E_def Od_def)
  then obtain x where x: "x \<in> Od - E" by blast
  have finD: "finite (Od - E)" using fin by simp
  have "card (Od - E - {x}) = card (Od - E) - 1" using x finD by (simp add: card_Diff_singleton)
  moreover have "card (Od - E) \<noteq> 0" using x finD by auto
  ultimately have "odd (card (Od - E - {x}))" using ev by simp
  then have "card (Od - E - {x}) \<noteq> 0" by (metis even_zero)
  then have "Od - E - {x} \<noteq> {}" by (metis card.empty)
  then obtain y where y: "y \<in> Od - E - {x}" by blast
  have xy: "x \<in> Od - E" "y \<in> Od - E" "x \<noteq> y" using x y by auto
  have "\<exists>u v. u \<in> Od - E \<and> v \<in> Od - E \<and> v < u"
  proof (cases "y < x")
    case True
    with xy show ?thesis by blast
  next
    case False
    with xy have "x < y" by simp
    with xy show ?thesis by blast
  qed
  then obtain u v where uv: "u \<in> Od - E" "v \<in> Od - E" "v < u" by blast
  then have "list_ex (joins u v) (edges og)" using full by (simp add: Od_def)
  then obtain e where e: "e \<in> set (edges og)" "joins u v e" by (auto simp: list_ex_iff)
  obtain a b d where abd: "e = (a, b, d)" by (cases e)
  have "b < a" using ok e(1) by (auto simp: odd_edges_ok_def abd)
  with e(2) uv(3) have ab: "a = u" "b = v" by (auto simp: joins_def abd)
  have enm: "e \<notin> set m"
  proof
    assume "e \<in> set m"
    then have "u \<in> set (ends m)" unfolding in_ends_iff abd ab by blast
    with uv(1) show False by (simp add: E_def)
  qed
  from subseq_extend [OF sub e(1) enm] obtain m' where
    m': "subseq m' (edges og)" "mset m' = add_mset e (mset m)" by blast
  have "mset (ends m') = mset (ends (e # m))" using m'(2) by (intro mset_ends_cong) simp
  then have "distinct (ends m') \<longleftrightarrow> distinct (ends (e # m))" by (rule mset_eq_imp_distinct_iff)
  moreover have "distinct (ends (e # m))"
  proof -
    have "ends (e # m) = u # v # ends m" by (simp add: ends_def abd ab)
    moreover have "u \<notin> set (ends m)" "v \<notin> set (ends m)" "u \<noteq> v"
      using uv by (auto simp: E_def)
    ultimately show ?thesis using dis by simp
  qed
  ultimately have "m' \<in> set (matchings og)" using m'(1) by (simp add: matchings_iff no_common_end_ends)
  with mx have "length m' \<le> length m" by blast
  moreover have "length m' = Suc (length m)" using m'(2) by (metis size_mset size_add_mset)
  ultimately show False by simp
qed

subsection \<open>The pairs the augmentation loop handles\<close>

lemma mset_pair_ends: "mset (pair_ends ps) = sum_mset (image_mset (\<lambda>(u, v). {#u, v#}) (mset ps))"
  by (induction ps) (auto simp: pair_ends_def)

lemma mset_ends_sum: "mset (ends m) = sum_mset (image_mset (\<lambda>(a, b, d). {#a, b#}) (mset m))"
  by (induction m) (auto simp: ends_def)

lemma mset_pair_ends_rev: "mset (pair_ends (map rev_ends m)) = mset (ends m)"
proof -
  have "(\<lambda>(u, v). {#u, v#}) \<circ> rev_ends = (\<lambda>(a, b, d). {#a, b#})"
    by (auto simp: rev_ends_def fun_eq_iff)
  then show ?thesis
    by (simp add: mset_pair_ends mset_ends_sum multiset.map_comp)
qed

lemma distinct_rev_ends: "distinct (ends m) \<Longrightarrow> distinct (map rev_ends m)"
proof (induction m)
  case Nil
  then show ?case by simp
next
  case (Cons e m)
  obtain a b d where e: "e = (a, b, d)" by (cases e)
  from Cons.prems have d: "a \<notin> set (ends m)" "distinct (ends m)"
    by (simp_all add: e ends_Cons)
  have "rev_ends e \<notin> set (map rev_ends m)"
  proof
    assume "rev_ends e \<in> set (map rev_ends m)"
    then obtain e' where e': "e' \<in> set m" "rev_ends e' = rev_ends e" by auto
    obtain a' b' d' where e'': "e' = (a', b', d')" by (cases e')
    from e'(2) have "a' = a" by (simp add: rev_ends_def e e'')
    with e'(1) have "a \<in> set (ends m)" unfolding in_ends_iff e'' by blast
    with d(1) show False by simp
  qed
  with Cons.IH [OF d(2)] show ?case by simp
qed

lemma handled_of_mate:
  assumes mate: "is_mate_of matching m" and lt: "\<forall>(a, b, d) \<in> set m. b < a"
  shows "set (handled matching) = set (map rev_ends m)"
proof -
  have sm: "set matching = (\<Union>(a, b, d) \<in> set m. {(a, b), (b, a)})"
    using mate by (auto simp: is_mate_of_def)
  show ?thesis
  proof (intro set_eqI iffI)
    fix x assume "x \<in> set (handled matching)"
    then obtain u v where x: "x = (u, v)" "(u, v) \<in> set matching" "u < v"
      by (auto simp: handled_def)
    from x(2) sm obtain a b d where e: "(a, b, d) \<in> set m" "(u, v) = (a, b) \<or> (u, v) = (b, a)"
      by auto
    from lt e(1) have "b < a" by auto
    with e(2) x(3) have "(u, v) = (b, a)" by auto
    with e(1) show "x \<in> set (map rev_ends m)" by (force simp: x(1) rev_ends_def)
  next
    fix x assume "x \<in> set (map rev_ends m)"
    then obtain a b d where e: "(a, b, d) \<in> set m" "x = (b, a)"
      by (auto simp: rev_ends_def)
    from lt e(1) have "b < a" by auto
    moreover have "(b, a) \<in> set matching" using sm e(1) by auto
    ultimately show "x \<in> set (handled matching)" by (simp add: handled_def e(2))
  qed
qed

lemma handled_ends:
  assumes mate: "is_mate_of matching m" and lt: "\<forall>(a, b, d) \<in> set m. b < a"
    and dis: "distinct (ends m)"
  shows "mset (pair_ends (handled matching)) = mset (ends m)"
proof -
  have "distinct matching" using mate by (auto simp: is_mate_of_def distinct_map)
  then have d1: "distinct (handled matching)" by (simp add: handled_def)
  have d2: "distinct (map rev_ends m)" using dis by (rule distinct_rev_ends)
  have "mset (handled matching) = mset (map rev_ends m)"
    using set_eq_iff_mset_eq_distinct [OF d1 d2] handled_of_mate [OF mate lt] by blast
  then have "mset (pair_ends (handled matching)) = mset (pair_ends (map rev_ends m))"
    by (simp add: mset_pair_ends)
  then show ?thesis by (simp add: mset_pair_ends_rev)
qed

lemma count_distinct: "distinct xs \<Longrightarrow> count_list xs n = (if n \<in> set xs then 1 else 0)"
  by (induction xs) auto

lemma handled_count:
  assumes mate: "is_mate_of matching m" and lt: "\<forall>(a, b, d) \<in> set m. b < a"
    and dis: "distinct (ends m)"
  shows "count_list (pair_ends (handled matching)) n = (if n \<in> set (ends m) then 1 else 0)"
proof -
  note e = handled_ends [OF assms]
  have "distinct (pair_ends (handled matching))"
    using e dis by (metis mset_eq_imp_distinct_iff)
  moreover have "set (pair_ends (handled matching)) = set (ends m)"
    using e by (rule mset_eq_setD)
  ultimately show ?thesis by (simp add: count_distinct)
qed

subsection \<open>The augmentation\<close>

lemma get_edge_joined:
  assumes "list_ex (joins p q) (edges g)"
  shows "\<exists>a b d. get_edge g p q = Inr d \<and> (a, b, d) \<in> set (edges g) \<and> joins p q (a, b, d)"
proof -
  from assms obtain e0 where "e0 \<in> set (edges g)" "joins p q e0"
    by (auto simp: list_ex_iff)
  then have "find (joins p q) (edges g) \<noteq> None"
    unfolding find_None_iff by blast
  then obtain e where e: "find (joins p q) (edges g) = Some e" by auto
  then have "e \<in> set (edges g)" "joins p q e"
    by (auto simp: find_Some_iff)
  with e show ?thesis by (cases e) (auto simp: get_edge_def)
qed

lemma multi_add_edge_known:
  "p \<in> set (nodes eg) \<Longrightarrow> q \<in> set (nodes eg) \<Longrightarrow>
   multi_add_edge eg p q d = eg\<lparr>edges := edges eg @ [(p, q, d)]\<rparr>"
  by (simp add: multi_add_edge_def add_node_def Let_def)

lemma add_path_edges_ok:
  assumes "list_all (\<lambda>(x, y). list_ex (joins x y) (edges g)) ps"
    and "\<forall>(x, y) \<in> set ps. x \<in> set (nodes eg) \<and> y \<in> set (nodes eg)"
  shows "add_path_edges g ps eg = Inr (eg\<lparr>edges := edges eg @ new_edges g ps\<rparr>)"
  using assms
proof (induction ps arbitrary: eg)
  case Nil
  then show ?case by (simp add: new_edges_def)
next
  case (Cons pq ps)
  obtain p q where pq: "pq = (p, q)" by (cases pq)
  from Cons.prems(1) have j: "list_ex (joins p q) (edges g)"
    and rest: "list_all (\<lambda>(x, y). list_ex (joins x y) (edges g)) ps"
    by (simp_all add: pq)
  from get_edge_joined [OF j] obtain d where d: "get_edge g p q = Inr d" by blast
  define nd where "nd = \<lparr>weight = weight d, edge_id = None, path = None\<rparr>"
  define eg1 where "eg1 = eg\<lparr>edges := edges eg @ [(p, q, nd)]\<rparr>"
  have in_nodes: "p \<in> set (nodes eg)" "q \<in> set (nodes eg)"
    using Cons.prems(2) by (simp_all add: pq)
  have m: "multi_add_edge eg p q nd = eg1"
    using in_nodes by (simp add: multi_add_edge_known eg1_def)
  have n1: "\<forall>(x, y) \<in> set ps. x \<in> set (nodes eg1) \<and> y \<in> set (nodes eg1)"
    using Cons.prems(2) by (simp add: eg1_def nodes_edges_update)
  have w: "weight_of g p q = weight d" by (simp add: weight_of_def d)
  have "add_path_edges g (pq # ps) eg = add_path_edges g ps eg1"
    by (simp add: pq d m [unfolded nd_def])
  also have "\<dots> = Inr (eg1\<lparr>edges := edges eg1 @ new_edges g ps\<rparr>)"
    by (rule Cons.IH [OF rest n1])
  also have "eg1\<lparr>edges := edges eg1 @ new_edges g ps\<rparr> = eg\<lparr>edges := edges eg @ new_edges g (pq # ps)\<rparr>"
    by (simp add: eg1_def new_edges_def pq w nd_def)
  finally show ?case .
qed

lemma walk_pairs:
  assumes "wf_graph g" "walk g a b p"
  shows "list_all (\<lambda>(x, y). list_ex (joins x y) (edges g)) (pairs p False) \<and>
         (\<forall>(x, y) \<in> set (pairs p False). x \<in> set (nodes g) \<and> y \<in> set (nodes g))"
proof -
  have j: "list_all (\<lambda>(x, y). list_ex (joins x y) (edges g)) (pairs p False)"
    using assms(2) by (simp add: walk_def)
  have "x \<in> set (nodes g) \<and> y \<in> set (nodes g)" if "(x, y) \<in> set (pairs p False)" for x y
  proof -
    from j that have "list_ex (joins x y) (edges g)" by (auto simp: list_all_iff)
    then have "(x, y) \<in> adjacent g" by (simp add: adjacent_def)
    with assms(1) show ?thesis by (rule adjacent_nodes)
  qed
  with j show ?thesis by blast
qed

lemma add_matching_ok:
  assumes wf: "wf_graph g" and n: "nodes eg = nodes g"
    and look: "\<forall>(u, v) \<in> set ms. u < v \<longrightarrow>
                 (\<exists>d p. get_edge odd_gr u v = Inr d \<and> path d = Some p \<and> walk g v u p)"
  shows "add_matching g odd_gr ms eg = Inr (eg\<lparr>edges := edges eg @ added_edges g odd_gr ms\<rparr>)"
  using n look
proof (induction ms arbitrary: eg)
  case Nil
  then show ?case by (simp add: added_edges_def handled_def)
next
  case (Cons uv ms)
  obtain u v where uv: "uv = (u, v)" by (cases uv)
  have rest: "\<forall>(u, v) \<in> set ms. u < v \<longrightarrow>
                 (\<exists>d p. get_edge odd_gr u v = Inr d \<and> path d = Some p \<and> walk g v u p)"
    using Cons.prems(2) by simp
  show ?case
  proof (cases "v \<le> u")
    case True
    then have "added_edges g odd_gr (uv # ms) = added_edges g odd_gr ms"
      by (simp add: added_edges_def handled_def uv)
    with True Cons.IH [OF Cons.prems(1) rest] show ?thesis by (simp add: uv)
  next
    case False
    with Cons.prems(2) obtain d p where dp: "get_edge odd_gr u v = Inr d" "path d = Some p"
      "walk g v u p" by (auto simp: uv)
    define ps where "ps = pairs p False"
    have wp: "list_all (\<lambda>(x, y). list_ex (joins x y) (edges g)) ps"
      "\<forall>(x, y) \<in> set ps. x \<in> set (nodes eg) \<and> y \<in> set (nodes eg)"
      using walk_pairs [OF wf dp(3)] Cons.prems(1) by (simp_all add: ps_def)
    define eg1 where "eg1 = eg\<lparr>edges := edges eg @ new_edges g ps\<rparr>"
    have a: "add_path_edges g ps eg = Inr eg1"
      unfolding eg1_def by (rule add_path_edges_ok [OF wp])
    have n1: "nodes eg1 = nodes g" using Cons.prems(1) by (simp add: eg1_def nodes_edges_update)
    have po: "path_of odd_gr u v = p" by (simp add: path_of_def dp)
    have ad: "added_edges g odd_gr (uv # ms) = new_edges g ps @ added_edges g odd_gr ms"
      using False by (simp add: added_edges_def handled_def uv po ps_def)
    have "add_matching g odd_gr (uv # ms) eg = add_matching g odd_gr ms eg1"
      using False by (simp add: uv dp a [unfolded ps_def])
    also have "\<dots> = Inr (eg1\<lparr>edges := edges eg1 @ added_edges g odd_gr ms\<rparr>)"
      by (rule Cons.IH [OF n1 rest])
    also have "eg1\<lparr>edges := edges eg1 @ added_edges g odd_gr ms\<rparr> =
               eg\<lparr>edges := edges eg @ added_edges g odd_gr (uv # ms)\<rparr>"
      by (simp add: eg1_def ad)
    finally show ?thesis .
  qed
qed

subsection \<open>What the library's matching gives\<close>

lemma matching_facts:
  assumes wf: "wf_graph g" and con: "connected g" and lib: "matching_from_library g matching"
  shows "\<exists>og m. odd_graph g = Inr og \<and> odd_edges_ok g og \<and> subseq m (edges og) \<and>
           distinct (ends m) \<and> is_mate_of matching m \<and> set (ends m) = set (odd_nodes_of g)"
proof -
  from odd_graph_ok [OF con] obtain og where og: "odd_graph g = Inr og" "odd_edges_ok g og"
    "\<forall>u \<in> set (odd_nodes_of g). \<forall>v \<in> set (odd_nodes_of g). v < u \<longrightarrow> list_ex (joins u v) (edges og)"
    by blast
  from lib og(1) have "max_weight_matching_returns og matching"
    by (simp add: matching_from_library_def)
  then obtain m where m: "m \<in> set (matchings og)" "is_mate_of matching m"
    "\<forall>m' \<in> set (matchings og). length m' < length m \<or>
        (length m' = length m \<and> matching_weight m' \<le> matching_weight m)"
    by (auto simp: max_weight_matching_returns_def list_ex_iff list_all_iff)
  from m(3) have mx: "\<forall>m' \<in> set (matchings og). length m' \<le> length m" by auto
  have "set (ends m) = set (odd_nodes_of g)"
    using wf og(2,3) m(1) mx by (rule matching_perfect)
  moreover have "subseq m (edges og)" "distinct (ends m)"
    using m(1) by (simp_all add: matchings_iff no_common_end_ends)
  ultimately show ?thesis using og(1,2) m(2) by blast
qed

lemma matched_edges_down:
  assumes "odd_edges_ok g og" "subseq m (edges og)"
  shows "\<forall>(a, b, d) \<in> set m. b < a"
proof -
  have "e \<in> set (edges og)" if "e \<in> set m" for e
    using assms(2) that by (rule list_emb_set [THEN exE]) auto
  with assms(1) show ?thesis by (fastforce simp: odd_edges_ok_def)
qed

lemma matching_lookups:
  assumes ok: "odd_edges_ok g og" and sub: "subseq m (edges og)" and mate: "is_mate_of matching m"
  shows "\<forall>(u, v) \<in> set matching. u < v \<longrightarrow>
           (\<exists>d p. get_edge og u v = Inr d \<and> path d = Some p \<and> walk g v u p)"
proof -
  have "\<exists>d p. get_edge og u v = Inr d \<and> path d = Some p \<and> walk g v u p"
    if uv: "(u, v) \<in> set matching" "u < v" for u v
  proof -
    from uv(1) mate obtain a b d0 where e: "(a, b, d0) \<in> set m" "(u, v) = (a, b) \<or> (u, v) = (b, a)"
      by (auto simp: is_mate_of_def)
    have "(a, b, d0) \<in> set (edges og)"
      using sub e(1) by (rule list_emb_set [THEN exE]) auto
    moreover have "joins u v (a, b, d0)" using e(2) by (auto simp: joins_def)
    ultimately have "list_ex (joins u v) (edges og)" by (auto simp: list_ex_iff)
    from get_edge_joined [OF this] obtain a' b' d where d: "get_edge og u v = Inr d"
      "(a', b', d) \<in> set (edges og)" "joins u v (a', b', d)" by blast
    from ok d(2) have p: "b' < a'" "\<exists>p. path d = Some p \<and> walk g a' b' p"
      by (auto simp: odd_edges_ok_def)
    from p(1) d(3) uv(2) have "a' = v" "b' = u" by (auto simp: joins_def)
    with p(2) d(1) show ?thesis by auto
  qed
  then show ?thesis by blast
qed

lemma eulerian_graph_of_ok:
  assumes wf: "wf_graph g" and con: "connected g" and lib: "matching_from_library g matching"
  shows "\<exists>og m. odd_graph g = Inr og \<and> odd_edges_ok g og \<and> subseq m (edges og) \<and>
           distinct (ends m) \<and> is_mate_of matching m \<and> set (ends m) = set (odd_nodes_of g) \<and>
           eulerian_graph_of g matching = Inr (g\<lparr>edges := edges g @ added_edges g og matching\<rparr>)"
proof -
  from matching_facts [OF assms] obtain og m where f: "odd_graph g = Inr og" "odd_edges_ok g og"
    "subseq m (edges og)" "distinct (ends m)" "is_mate_of matching m"
    "set (ends m) = set (odd_nodes_of g)" by blast
  have "add_matching g og matching g = Inr (g\<lparr>edges := edges g @ added_edges g og matching\<rparr>)"
    using wf refl matching_lookups [OF f(2,3,5)] by (rule add_matching_ok)
  then have "eulerian_graph_of g matching = Inr (g\<lparr>edges := edges g @ added_edges g og matching\<rparr>)"
    by (simp add: eulerian_graph_of_def f(1))
  with f show ?thesis by blast
qed

subsection \<open>Degrees after the augmentation\<close>

lemma degree_append:
  "degree (g\<lparr>edges := edges g @ xs\<rparr>) n = degree g n + sum_list (map (ends_at n) xs)"
  by (simp add: degree_def)

lemma ends_at_new_edges:
  "sum_list (map (ends_at n) (new_edges g ps)) =
   count_list (map fst ps) n + count_list (map snd ps) n"
  by (induction ps) (auto simp: new_edges_def ends_at_def)

lemma successive_fst: "map fst (successive a xs) = butlast (a # xs)"
  by (induction xs arbitrary: a) auto

lemma successive_snd: "map snd (successive a xs) = xs"
  by (induction xs arbitrary: a) auto

lemma pairs_fst: "map fst (pairs p False) = butlast p"
  by (cases p) (simp_all add: pairs_def successive_fst)

lemma pairs_snd: "map snd (pairs p False) = tl p"
  by (cases p) (simp_all add: pairs_def successive_snd)

lemma walk_parity:
  assumes "p \<noteq> []"
  shows "even (count_list (butlast p) n + count_list (tl p) n) \<longleftrightarrow>
         even ((if hd p = n then 1 else 0) + (if last p = n then 1 else (0::nat)))"
proof -
  have "count_list (butlast p @ [last p]) n =
        count_list (butlast p) n + (if last p = n then 1 else 0)"
    by simp
  then have a: "count_list p n = count_list (butlast p) n + (if last p = n then 1 else 0)"
    using assms by simp
  have b: "count_list p n = (if hd p = n then 1 else 0) + count_list (tl p) n"
    using assms by (cases p) auto
  have "count_list (butlast p) n + count_list (tl p) n +
        ((if hd p = n then 1 else 0) + (if last p = n then 1 else 0)) = 2 * count_list p n"
    using a b by simp
  then have "even (count_list (butlast p) n + count_list (tl p) n +
        ((if hd p = n then 1 else 0) + (if last p = n then 1 else 0)))"
    by simp
  then show ?thesis by (simp only: even_add)
qed

lemma added_parity:
  assumes "\<forall>(u, v) \<in> set hs. walk g v u (path_of og u v)"
  shows "even (sum_list (map (ends_at n)
            (concat (map (\<lambda>(u, v). new_edges g (pairs (path_of og u v) False)) hs)))) \<longleftrightarrow>
         even (count_list (pair_ends hs) n)"
  using assms
proof (induction hs)
  case Nil
  then show ?case by (simp add: pair_ends_def)
next
  case (Cons uv hs)
  obtain u v where uv: "uv = (u, v)" by (cases uv)
  define p where "p = path_of og u v"
  from Cons.prems have w: "walk g v u p" and rest: "\<forall>(u, v) \<in> set hs. walk g v u (path_of og u v)"
    by (simp_all add: uv p_def)
  from w have ne: "p \<noteq> []" and h: "hd p = v" and l: "last p = u" by (simp_all add: walk_def)
  have one: "even (sum_list (map (ends_at n) (new_edges g (pairs p False)))) \<longleftrightarrow>
             even ((if v = n then 1 else 0) + (if u = n then 1 else (0::nat)))"
    using walk_parity [OF ne, of n] by (simp add: ends_at_new_edges pairs_fst pairs_snd h l)
  have cnt: "count_list (pair_ends (uv # hs)) n =
             (if u = n then 1 else 0) + (if v = n then 1 else 0) + count_list (pair_ends hs) n"
    by (simp add: pair_ends_def uv)
  have "even (sum_list (map (ends_at n)
            (concat (map (\<lambda>(u, v). new_edges g (pairs (path_of og u v) False)) (uv # hs))))) \<longleftrightarrow>
        (even (sum_list (map (ends_at n) (new_edges g (pairs p False)))) \<longleftrightarrow>
         even (sum_list (map (ends_at n)
            (concat (map (\<lambda>(u, v). new_edges g (pairs (path_of og u v) False)) hs)))))"
    by (simp add: uv p_def)
  also have "\<dots> \<longleftrightarrow> (even ((if v = n then 1 else 0) + (if u = n then 1 else (0::nat))) \<longleftrightarrow>
                      even (count_list (pair_ends hs) n))"
    using one Cons.IH [OF rest] by simp
  also have "\<dots> \<longleftrightarrow> even (count_list (pair_ends (uv # hs)) n)"
    unfolding cnt by (simp only: even_add) auto
  finally show ?case .
qed

subsection \<open>The augmented multigraph\<close>

lemma handled_walks:
  assumes ok: "odd_edges_ok g og" and sub: "subseq m (edges og)" and mate: "is_mate_of matching m"
  shows "\<forall>(u, v) \<in> set (handled matching). u < v \<and> walk g v u (path_of og u v)"
proof -
  have "u < v \<and> walk g v u (path_of og u v)" if "(u, v) \<in> set (handled matching)" for u v
  proof -
    from that have uv: "(u, v) \<in> set matching" "u < v" by (auto simp: handled_def)
    with matching_lookups [OF ok sub mate] obtain d p where
      "get_edge og u v = Inr d" "path d = Some p" "walk g v u p" by blast
    then have "walk g v u (path_of og u v)" by (simp add: path_of_def)
    with uv(2) show ?thesis by simp
  qed
  then show ?thesis by blast
qed

lemma augmented_degree_parity:
  assumes ok: "odd_edges_ok g og" and sub: "subseq m (edges og)" and mate: "is_mate_of matching m"
    and dis: "distinct (ends m)"
  shows "even (degree (g\<lparr>edges := edges g @ added_edges g og matching\<rparr>) n) \<longleftrightarrow>
         even (degree g n + (if n \<in> set (ends m) then 1 else 0))"
proof -
  have w: "\<forall>(u, v) \<in> set (handled matching). walk g v u (path_of og u v)"
    using handled_walks [OF ok sub mate] by auto
  have "even (sum_list (map (ends_at n) (added_edges g og matching))) \<longleftrightarrow>
        even (count_list (pair_ends (handled matching)) n)"
    unfolding added_edges_def using w by (rule added_parity)
  also have "count_list (pair_ends (handled matching)) n = (if n \<in> set (ends m) then 1 else 0)"
    using mate matched_edges_down [OF ok sub] dis by (rule handled_count)
  finally have "even (sum_list (map (ends_at n) (added_edges g og matching))) \<longleftrightarrow>
        even (if n \<in> set (ends m) then 1 else (0::nat))" .
  then show ?thesis by (simp only: degree_append even_add)
qed

text \<open>
  Claim C4: for every connected graph, whatever matching the library returns for the
  graph of odd nodes, the augmentation raises nothing and every vertex of the augmented
  multigraph has even degree.
\<close>

theorem augmented_degrees_even:
  assumes wf: "wf_graph g" and con: "connected g" and lib: "matching_from_library g matching"
  shows "\<exists>eulerian_graph. eulerian_graph_of g matching = Inr eulerian_graph \<and>
           nodes eulerian_graph = nodes g \<and>
           (\<forall>n \<in> set (nodes eulerian_graph). even (degree eulerian_graph n))"
proof -
  from eulerian_graph_of_ok [OF assms] obtain og m where f: "odd_graph g = Inr og"
    "odd_edges_ok g og" "subseq m (edges og)" "distinct (ends m)" "is_mate_of matching m"
    "set (ends m) = set (odd_nodes_of g)"
    "eulerian_graph_of g matching = Inr (g\<lparr>edges := edges g @ added_edges g og matching\<rparr>)"
    by blast
  define eg where "eg = g\<lparr>edges := edges g @ added_edges g og matching\<rparr>"
  have n: "nodes eg = nodes g" by (simp add: eg_def nodes_edges_update)
  have "even (degree eg x)" if x: "x \<in> set (nodes g)" for x
  proof -
    have "even (degree eg x) \<longleftrightarrow> even (degree g x + (if x \<in> set (ends m) then 1 else 0))"
      unfolding eg_def using f(2,3,5,4) by (rule augmented_degree_parity)
    moreover have "x \<in> set (ends m) \<longleftrightarrow> degree g x mod 2 = 1"
      using x by (simp add: f(6) odd_nodes_of_def)
    ultimately show ?thesis by (auto simp: odd_iff_mod_2_eq_one)
  qed
  with n f(7) show ?thesis by (auto simp: eg_def)
qed

subsection \<open>The augmented multigraph is Eulerian\<close>

lemma added_edges_in_nodes:
  assumes wf: "wf_graph g"
    and w: "\<forall>(u, v) \<in> set (handled matching). walk g v u (path_of og u v)"
  shows "\<forall>(a, b, d) \<in> set (added_edges g og matching).
           a \<in> set (nodes g) \<and> b \<in> set (nodes g) \<and>
           (\<exists>(a', b', d') \<in> set (edges g). weight d = weight d')"
proof -
  have "a \<in> set (nodes g) \<and> b \<in> set (nodes g) \<and> (\<exists>(a', b', d') \<in> set (edges g). weight d = weight d')"
    if e: "(a, b, d) \<in> set (added_edges g og matching)" for a b d
  proof -
    from e obtain u v where uv: "(u, v) \<in> set (handled matching)"
      "(a, b, d) \<in> set (new_edges g (pairs (path_of og u v) False))"
      by (auto simp: added_edges_def)
    from w uv(1) have wk: "walk g v u (path_of og u v)" by auto
    from uv(2) have ab: "(a, b) \<in> set (pairs (path_of og u v) False)"
      and d: "weight d = weight_of g a b"
      by (auto simp: new_edges_def)
    from walk_pairs [OF wf wk] ab have n: "a \<in> set (nodes g)" "b \<in> set (nodes g)"
      and j: "list_ex (joins a b) (edges g)"
      by (auto simp: list_all_iff)
    from get_edge_joined [OF j] obtain a' b' d' where
      "get_edge g a b = Inr d'" "(a', b', d') \<in> set (edges g)" by blast
    with d have "\<exists>(a', b', d') \<in> set (edges g). weight d = weight d'"
      by (auto simp: weight_of_def)
    with n show ?thesis by simp
  qed
  then show ?thesis by blast
qed

lemma adjacent_append: "adjacent g \<subseteq> adjacent (g\<lparr>edges := edges g @ xs\<rparr>)"
  by (auto simp: adjacent_def)

lemma connected_append:
  assumes "connected g"
  shows "connected (g\<lparr>edges := edges g @ xs\<rparr>)"
proof -
  have "(adjacent g)\<^sup>* \<subseteq> (adjacent (g\<lparr>edges := edges g @ xs\<rparr>))\<^sup>*"
    using adjacent_append by (rule rtrancl_mono)
  with assms show ?thesis by (auto simp: connected_def nodes_edges_update)
qed

lemma nodes_of_edges: "wf_graph g \<Longrightarrow> edges g \<noteq> [] \<Longrightarrow> nodes g \<noteq> []"
  by (cases "edges g") (auto simp: wf_graph_def)

lemma augmented_is_eulerian:
  assumes wf: "wf_graph g" and con: "connected g" and ne: "nodes g \<noteq> []"
    and w: "\<forall>(u, v) \<in> set (handled matching). walk g v u (path_of og u v)"
    and ev: "\<forall>n \<in> set (nodes g). even (degree (g\<lparr>edges := edges g @ added_edges g og matching\<rparr>) n)"
  shows "is_eulerian (g\<lparr>edges := edges g @ added_edges g og matching\<rparr>) = Inr True"
proof -
  define eg where "eg = g\<lparr>edges := edges g @ added_edges g og matching\<rparr>"
  have n: "nodes eg = nodes g" by (simp add: eg_def nodes_edges_update)
  have "list_all (\<lambda>(a, b, d). a \<in> set (nodes g) \<and> b \<in> set (nodes g)) (added_edges g og matching)"
    using added_edges_in_nodes [OF wf w] by (auto simp: list_all_iff)
  then have wfe: "wf_graph eg" using wf by (simp add: wf_graph_def eg_def nodes_edges_update)
  have "connected eg" unfolding eg_def using con by (rule connected_append)
  then have c: "is_connected eg = Inr True" using wfe ne n by (simp add: is_connected_iff)
  have "\<forall>v \<in> set (nodes eg). degree eg v mod 2 = 0"
    using ev by (simp add: n eg_def [symmetric] even_iff_mod_2_eq_zero)
  then have "\<not> list_ex (\<lambda>v. degree eg v mod 2 \<noteq> 0) (nodes eg)"
    by (simp add: list_ex_iff)
  with c show ?thesis by (simp add: is_eulerian_def eg_def)
qed

subsection \<open>The node sequence\<close>

lemma successive_circuit:
  "chained (e # c) \<Longrightarrow> snd (last (e # c)) = x \<Longrightarrow> successive (fst e) (map fst c @ [x]) = e # c"
proof (induction c arbitrary: e)
  case Nil
  then show ?case by (cases e) auto
next
  case (Cons f c)
  from Cons.prems have s: "snd e = fst f" and ch: "chained (f # c)" and l: "snd (last (f # c)) = x"
    by simp_all
  from Cons.IH [OF ch l] s show ?case by (cases e) auto
qed

lemma pairs_of_circuit:
  assumes "chained c" "closed_walk c" "c \<noteq> []"
  shows "pairs (map fst c @ [fst (hd c)]) False = c"
proof -
  obtain e c' where c: "c = e # c'" using assms(3) by (cases c) auto
  from assms(2) have "snd (last (e # c')) = fst e" by (simp add: closed_walk_def c)
  with assms(1) have "successive (fst e) (map fst c' @ [fst e]) = e # c'"
    unfolding c by (rule successive_circuit)
  then show ?thesis by (simp add: c pairs_def)
qed

text \<open>
  Claim C3: for every connected graph with at least one edge, \<open>chinese_postman_path\<close>
  returns the augmented multigraph and a node sequence whose first element is its last,
  whose consecutive pairs are as many as the multigraph has edges, and whose consecutive
  pairs, read as undirected edges, are the multiset of the multigraph's edges: every
  edge, with its duplicates, is traversed exactly once.
\<close>

theorem circuit_traverses_every_edge_once:
  assumes wf: "wf_graph g" and con: "connected g" and ne: "edges g \<noteq> []"
    and lib: "matching_from_library g matching"
    and cir: "circuit_from_library g matching circuit"
  shows "\<exists>eulerian_graph nodes_seq.
           chinese_postman_path g matching circuit = Inr (eulerian_graph, nodes_seq) \<and>
           eulerian_graph_of g matching = Inr eulerian_graph \<and>
           hd nodes_seq = last nodes_seq \<and>
           length (pairs nodes_seq False) = length (edges eulerian_graph) \<and>
           mset (map undirected (pairs nodes_seq False)) =
             mset (map undirected (edge_ends eulerian_graph))"
proof -
  from eulerian_graph_of_ok [OF wf con lib] obtain og m where f: "odd_graph g = Inr og"
    "odd_edges_ok g og" "subseq m (edges og)" "distinct (ends m)" "is_mate_of matching m"
    "set (ends m) = set (odd_nodes_of g)"
    "eulerian_graph_of g matching = Inr (g\<lparr>edges := edges g @ added_edges g og matching\<rparr>)"
    by blast
  define eg where "eg = g\<lparr>edges := edges g @ added_edges g og matching\<rparr>"
  have ego: "eulerian_graph_of g matching = Inr eg" using f(7) by (simp add: eg_def)
  from augmented_degrees_even [OF wf con lib] have ev:
    "\<forall>n \<in> set (nodes g). even (degree eg n)"
    by (auto simp: ego)
  have w: "\<forall>(u, v) \<in> set (handled matching). walk g v u (path_of og u v)"
    using handled_walks [OF f(2,3,5)] by auto
  have eu: "is_eulerian eg = Inr True"
    unfolding eg_def using wf con nodes_of_edges [OF wf ne] w ev [unfolded eg_def]
    by (rule augmented_is_eulerian)
  from cir have c: "chained circuit" "closed_walk circuit"
    "mset (map undirected circuit) = mset (map undirected (edge_ends eg))"
    by (simp_all add: circuit_from_library_def ego eu eulerian_circuit_returns_def)
  have "edges eg \<noteq> []" using ne by (simp add: eg_def)
  then have "map undirected (edge_ends eg) \<noteq> []" by (simp add: edge_ends_def)
  with c(3) have cne: "circuit \<noteq> []" by auto
  then obtain first rest where fr: "circuit = first # rest" by (cases circuit) auto
  define ns where "ns = map fst circuit @ [fst first]"
  have res: "chinese_postman_path g matching circuit = Inr (eg, ns)"
    by (simp add: chinese_postman_path_def ego eu fr ns_def)
  have p: "pairs ns False = circuit"
    using pairs_of_circuit [OF c(1,2) cne] by (simp add: ns_def fr)
  have hl: "hd ns = last ns" by (simp add: ns_def fr)
  have len: "length (pairs ns False) = length (edges eg)"
    using c(3) p by (metis length_map size_mset edge_ends_def)
  from res ego hl len c(3) p show ?thesis by auto
qed

subsection \<open>The total weight\<close>

lemma fold_weights:
  "fold (\<lambda>(u, v, data) total. total + weight data) es a = a + sum_list (weights es)"
  by (induction es arbitrary: a) (auto simp: weights_def)

lemma edge_sum_weights: "edge_sum g = sum_list (weights (edges g))"
  by (simp add: edge_sum_def fold_weights)

lemma edge_sum_append:
  "edge_sum (g\<lparr>edges := edges g @ xs\<rparr>) = edge_sum g + sum_list (weights xs)"
  by (simp add: edge_sum_weights weights_def)

lemma sum_list_nonneg_weights:
  "\<forall>w \<in> set ws. (0::int) \<le> w \<Longrightarrow> 0 \<le> sum_list ws"
  by (induction ws) auto

lemma sum_list_pos_weights:
  "\<forall>w \<in> set ws. (0::int) < w \<Longrightarrow> ws \<noteq> [] \<Longrightarrow> 0 < sum_list ws"
proof (induction ws)
  case Nil
  then show ?case by simp
next
  case (Cons w ws)
  then have "0 < w" and "0 \<le> sum_list ws"
    by (auto intro: sum_list_nonneg_weights order_less_imp_le)
  then show ?case by simp
qed

lemma no_odd_nodes_no_added:
  assumes "set (ends m) = set (odd_nodes_of g)" "is_mate_of matching m" "odd_nodes_of g = []"
  shows "added_edges g og matching = []"
proof -
  have "ends m = []" using assms(1,3) by simp
  then have "m = []" by (cases m) (auto simp: ends_def)
  with assms(2) have "matching = []" by (simp add: is_mate_of_def)
  then show ?thesis by (simp add: added_edges_def handled_def)
qed

lemma walk_has_pair:
  assumes "walk g a b p" "a \<noteq> b"
  shows "pairs p False \<noteq> []"
proof -
  from assms(1) have ne: "p \<noteq> []" and h: "hd p = a" and l: "last p = b"
    by (simp_all add: walk_def)
  then obtain x xs where p: "p = x # xs" by (cases p) auto
  with h l assms(2) have "xs \<noteq> []" by auto
  then obtain y ys where "xs = y # ys" by (cases xs) auto
  with p show ?thesis by (simp add: pairs_def)
qed

lemma odd_nodes_added:
  assumes ok: "odd_edges_ok g og" and sub: "subseq m (edges og)" and mate: "is_mate_of matching m"
    and per: "set (ends m) = set (odd_nodes_of g)" and odd: "odd_nodes_of g \<noteq> []"
  shows "added_edges g og matching \<noteq> []"
proof -
  have "ends m \<noteq> []" using per odd by auto
  then obtain e where e: "e \<in> set m" by (cases m) (auto simp: ends_def)
  then have "rev_ends e \<in> set (handled matching)"
    using handled_of_mate [OF mate matched_edges_down [OF ok sub]] by simp
  then obtain u v where uv: "(u, v) \<in> set (handled matching)"
    by (metis surj_pair)
  with handled_walks [OF ok sub mate] have w: "u < v" "walk g v u (path_of og u v)" by auto
  then have "pairs (path_of og u v) False \<noteq> []" by (intro walk_has_pair [of g v u]) auto
  then have "new_edges g (pairs (path_of og u v) False) \<noteq> []" by (simp add: new_edges_def)
  with uv show ?thesis by (force simp: added_edges_def)
qed

text \<open>
  Claim C5, amended: for every connected graph whose edge weights are not negative the
  total weight of the augmented multigraph is at least the total weight of the base
  graph, and equal to it when the base graph has no odd-degree vertex; when every edge
  weight is positive the two are equal only if the base graph has no odd-degree vertex.
\<close>

theorem augmented_weight:
  assumes wf: "wf_graph g" and con: "connected g" and lib: "matching_from_library g matching"
    and nonneg: "\<forall>(a, b, d) \<in> set (edges g). 0 \<le> weight d"
  shows "\<exists>eulerian_graph. eulerian_graph_of g matching = Inr eulerian_graph \<and>
           edge_sum g \<le> edge_sum eulerian_graph \<and>
           (odd_nodes_of g = [] \<longrightarrow> edge_sum eulerian_graph = edge_sum g) \<and>
           ((\<forall>(a, b, d) \<in> set (edges g). 0 < weight d) \<longrightarrow>
              (edge_sum eulerian_graph = edge_sum g \<longleftrightarrow> odd_nodes_of g = []))"
proof -
  from eulerian_graph_of_ok [OF wf con lib] obtain og m where f: "odd_graph g = Inr og"
    "odd_edges_ok g og" "subseq m (edges og)" "distinct (ends m)" "is_mate_of matching m"
    "set (ends m) = set (odd_nodes_of g)"
    "eulerian_graph_of g matching = Inr (g\<lparr>edges := edges g @ added_edges g og matching\<rparr>)"
    by blast
  define added where "added = added_edges g og matching"
  define eg where "eg = g\<lparr>edges := edges g @ added\<rparr>"
  have ego: "eulerian_graph_of g matching = Inr eg" using f(7) by (simp add: eg_def added_def)
  have s: "edge_sum eg = edge_sum g + sum_list (weights added)"
    by (simp add: eg_def edge_sum_append)
  have w: "\<forall>(u, v) \<in> set (handled matching). walk g v u (path_of og u v)"
    using handled_walks [OF f(2,3,5)] by auto
  have from_g: "\<forall>(a, b, d) \<in> set added. \<exists>(a', b', d') \<in> set (edges g). weight d = weight d'"
    using added_edges_in_nodes [OF wf w] by (auto simp: added_def)
  have "\<forall>x \<in> set (weights added). 0 \<le> x"
    using from_g nonneg by (fastforce simp: weights_def)
  then have ge: "0 \<le> sum_list (weights added)" by (rule sum_list_nonneg_weights)
  have none: "added = []" if "odd_nodes_of g = []"
    unfolding added_def using f(6,5) that by (rule no_odd_nodes_no_added)
  have some: "added \<noteq> []" if "odd_nodes_of g \<noteq> []"
    unfolding added_def using f(2,3,5,6) that by (rule odd_nodes_added)
  have pos: "0 < sum_list (weights added)"
    if p: "\<forall>(a, b, d) \<in> set (edges g). 0 < weight d" and o: "odd_nodes_of g \<noteq> []"
  proof -
    have "\<forall>x \<in> set (weights added). 0 < x"
      using from_g p by (fastforce simp: weights_def)
    moreover have "weights added \<noteq> []" using some [OF o] by (simp add: weights_def)
    ultimately show ?thesis by (rule sum_list_pos_weights)
  qed
  have a: "edge_sum g \<le> edge_sum eg" using s ge by simp
  have b: "odd_nodes_of g = [] \<longrightarrow> edge_sum eg = edge_sum g"
    using s none by (auto simp: weights_def)
  have c: "(\<forall>(a, b, d) \<in> set (edges g). 0 < weight d) \<longrightarrow>
              (edge_sum eg = edge_sum g \<longleftrightarrow> odd_nodes_of g = [])"
  proof (intro impI iffI)
    assume p: "\<forall>(a, b, d) \<in> set (edges g). 0 < weight d" and eq: "edge_sum eg = edge_sum g"
    show "odd_nodes_of g = []"
    proof (rule ccontr)
      assume "odd_nodes_of g \<noteq> []"
      from pos [OF p this] s eq show False by simp
    qed
  next
    assume "odd_nodes_of g = []"
    with b show "edge_sum eg = edge_sum g" by simp
  qed
  from ego a b c show ?thesis by blast
qed

subsection \<open>The run on the store\<close>

lemma only_changes_refl: "only_changes r h h"
  by (simp add: only_changes_def)

lemma only_changes_trans: "only_changes r h h1 \<Longrightarrow> only_changes r h1 h2 \<Longrightarrow> only_changes r h h2"
  by (simp add: only_changes_def)

lemma only_changes_mutate: "only_changes r h (mutate r f h)"
  by (simp add: only_changes_def mutate_def)

lemma deref_mutate_same: "deref (mutate r f h) r = f (deref h r)"
  by (simp add: deref_def mutate_def)

lemma deref_only_changes: "only_changes r h h' \<Longrightarrow> x \<noteq> r \<Longrightarrow> deref h' x = deref h x"
  by (simp add: only_changes_def deref_def)

lemma odd_inner_st_agrees:
  "only_changes result h (snd (odd_inner_st u paths lengths vs result h)) \<and>
   fst (odd_inner_st u paths lengths vs result h) =
     no_value (odd_inner u paths lengths vs (deref h result)) \<and>
   (\<forall>r'. odd_inner u paths lengths vs (deref h result) = Inr r' \<longrightarrow>
      deref (snd (odd_inner_st u paths lengths vs result h)) result = r')"
proof (induction vs arbitrary: h)
  case Nil
  then show ?case by (simp add: only_changes_refl no_value_def)
next
  case (Cons v vs)
  show ?case
  proof (cases "u \<le> v")
    case True
    with Cons.IH [of h] show ?thesis by simp
  next
    case False
    show ?thesis
    proof (cases "map_of lengths v")
      case None
      with False show ?thesis by (simp add: only_changes_refl no_value_def)
    next
      case (Some l)
      note sl = Some
      show ?thesis
      proof (cases "map_of paths v")
        case None
        with False sl show ?thesis by (simp add: only_changes_refl no_value_def)
      next
        case (Some p)
        define f where "f = (\<lambda>r. add_edge r u v \<lparr>weight = - int l, edge_id = None, path = Some p\<rparr>)"
        define h1 where "h1 = mutate result f h"
        have st: "odd_inner_st u paths lengths (v # vs) result h =
                  odd_inner_st u paths lengths vs result h1"
          using False sl Some by (simp add: h1_def f_def)
        have pu: "odd_inner u paths lengths (v # vs) (deref h result) =
                  odd_inner u paths lengths vs (deref h1 result)"
          using False sl Some by (simp add: h1_def f_def deref_mutate_same)
        have oc: "only_changes result h h1" by (simp add: h1_def only_changes_mutate)
        have ih: "only_changes result h1 (snd (odd_inner_st u paths lengths vs result h1))"
          "fst (odd_inner_st u paths lengths vs result h1) =
             no_value (odd_inner u paths lengths vs (deref h1 result))"
          "\<forall>r'. odd_inner u paths lengths vs (deref h1 result) = Inr r' \<longrightarrow>
              deref (snd (odd_inner_st u paths lengths vs result h1)) result = r'"
          using Cons.IH [of h1] by simp_all
        have "only_changes result h (snd (odd_inner_st u paths lengths vs result h1))"
          using oc ih(1) by (rule only_changes_trans)
        with ih(2,3) show ?thesis unfolding st pu by simp
      qed
    qed
  qed
qed


lemma odd_outer_st_agrees:
  assumes "graph \<noteq> result"
  shows "only_changes result h (snd (odd_outer_st graph odd_nodes us result h)) \<and>
   fst (odd_outer_st graph odd_nodes us result h) =
     no_value (odd_outer (deref h graph) odd_nodes us (deref h result)) \<and>
   (\<forall>r'. odd_outer (deref h graph) odd_nodes us (deref h result) = Inr r' \<longrightarrow>
      deref (snd (odd_outer_st graph odd_nodes us result h)) result = r')"
proof (induction us arbitrary: h)
  case Nil
  then show ?case by (simp add: only_changes_refl no_value_def)
next
  case (Cons u us)
  define g where "g = deref h graph"
  define P L where "P = shortest_path g u" and "L = shortest_path_length g u"
  obtain r1 h1 where s1: "odd_inner_st u P L odd_nodes result h = (r1, h1)"
    by (cases "odd_inner_st u P L odd_nodes result h")
  from odd_inner_st_agrees [of result h u P L odd_nodes] s1 have
    i1: "only_changes result h h1" "r1 = no_value (odd_inner u P L odd_nodes (deref h result))"
    "\<forall>r'. odd_inner u P L odd_nodes (deref h result) = Inr r' \<longrightarrow> deref h1 result = r'"
    by simp_all
  show ?case
  proof (cases "odd_inner u P L odd_nodes (deref h result)")
    case (Inl e)
    then have "r1 = Inl e" using i1(2) by (simp add: no_value_def)
    with Inl s1 i1(1) show ?thesis
      by (simp add: Let_def g_def [symmetric] P_def [symmetric] L_def [symmetric] no_value_def)
  next
    case (Inr res1)
    then have r1: "r1 = Inr ()" using i1(2) by (simp add: no_value_def)
    have d1: "deref h1 result = res1" using i1(3) Inr by simp
    have g1: "deref h1 graph = g" using i1(1) assms by (simp add: deref_only_changes g_def)
    have st: "odd_outer_st graph odd_nodes (u # us) result h =
              odd_outer_st graph odd_nodes us result h1"
      using s1 r1 by (simp add: Let_def g_def [symmetric] P_def [symmetric] L_def [symmetric])
    have pu: "odd_outer (deref h graph) odd_nodes (u # us) (deref h result) =
              odd_outer (deref h1 graph) odd_nodes us (deref h1 result)"
      using Inr by (simp add: Let_def g_def [symmetric] P_def [symmetric] L_def [symmetric] g1 d1)
    have ih: "only_changes result h1 (snd (odd_outer_st graph odd_nodes us result h1))"
      "fst (odd_outer_st graph odd_nodes us result h1) =
         no_value (odd_outer (deref h1 graph) odd_nodes us (deref h1 result))"
      "\<forall>r'. odd_outer (deref h1 graph) odd_nodes us (deref h1 result) = Inr r' \<longrightarrow>
          deref (snd (odd_outer_st graph odd_nodes us result h1)) result = r'"
      using Cons.IH [of h1] by simp_all
    have "only_changes result h (snd (odd_outer_st graph odd_nodes us result h1))"
      using i1(1) ih(1) by (rule only_changes_trans)
    with ih(2,3) show ?thesis unfolding st pu by simp
  qed
qed

lemma add_path_edges_st_agrees:
  assumes "graph \<noteq> eg"
  shows "only_changes eg h (snd (add_path_edges_st graph ps eg h)) \<and>
   fst (add_path_edges_st graph ps eg h) =
     no_value (add_path_edges (deref h graph) ps (deref h eg)) \<and>
   (\<forall>r'. add_path_edges (deref h graph) ps (deref h eg) = Inr r' \<longrightarrow>
      deref (snd (add_path_edges_st graph ps eg h)) eg = r')"
proof (induction ps arbitrary: h)
  case Nil
  then show ?case by (simp add: only_changes_refl no_value_def)
next
  case (Cons pq ps)
  obtain p q where pq: "pq = (p, q)" by (cases pq)
  show ?case
  proof (cases "get_edge (deref h graph) p q")
    case (Inl e)
    then show ?thesis by (simp add: pq only_changes_refl no_value_def)
  next
    case (Inr d)
    define f where "f = (\<lambda>x. multi_add_edge x p q \<lparr>weight = weight d, edge_id = None, path = None\<rparr>)"
    define h1 where "h1 = mutate eg f h"
    have oc: "only_changes eg h h1" by (simp add: h1_def only_changes_mutate)
    have g1: "deref h1 graph = deref h graph" using oc assms by (simp add: deref_only_changes)
    have e1: "deref h1 eg = f (deref h eg)" by (simp add: h1_def deref_mutate_same)
    have st: "add_path_edges_st graph (pq # ps) eg h = add_path_edges_st graph ps eg h1"
      using Inr by (simp add: pq h1_def f_def)
    have pu: "add_path_edges (deref h graph) (pq # ps) (deref h eg) =
              add_path_edges (deref h1 graph) ps (deref h1 eg)"
      using Inr by (simp add: pq g1 e1 f_def)
    have ih: "only_changes eg h1 (snd (add_path_edges_st graph ps eg h1))"
      "fst (add_path_edges_st graph ps eg h1) =
         no_value (add_path_edges (deref h1 graph) ps (deref h1 eg))"
      "\<forall>r'. add_path_edges (deref h1 graph) ps (deref h1 eg) = Inr r' \<longrightarrow>
          deref (snd (add_path_edges_st graph ps eg h1)) eg = r'"
      using Cons.IH [of h1] by simp_all
    have "only_changes eg h (snd (add_path_edges_st graph ps eg h1))"
      using oc ih(1) by (rule only_changes_trans)
    with ih(2,3) show ?thesis unfolding st pu by simp
  qed
qed

lemma add_matching_st_agrees:
  assumes "graph \<noteq> eg" "odd_ref \<noteq> eg"
  shows "only_changes eg h (snd (add_matching_st graph odd_ref ms eg h)) \<and>
   fst (add_matching_st graph odd_ref ms eg h) =
     no_value (add_matching (deref h graph) (deref h odd_ref) ms (deref h eg)) \<and>
   (\<forall>r'. add_matching (deref h graph) (deref h odd_ref) ms (deref h eg) = Inr r' \<longrightarrow>
      deref (snd (add_matching_st graph odd_ref ms eg h)) eg = r')"
proof (induction ms arbitrary: h)
  case Nil
  then show ?case by (simp add: only_changes_refl no_value_def)
next
  case (Cons uv ms)
  obtain u v where uv: "uv = (u, v)" by (cases uv)
  show ?case
  proof (cases "v \<le> u")
    case True
    with Cons.IH [of h] show ?thesis by (simp add: uv)
  next
    case False
    show ?thesis
    proof (cases "get_edge (deref h odd_ref) u v")
      case (Inl e)
      with False show ?thesis by (simp add: uv only_changes_refl no_value_def)
    next
      case (Inr edge)
      show ?thesis
      proof (cases "path edge")
        case None
        with False Inr show ?thesis by (simp add: uv only_changes_refl no_value_def)
      next
        case (Some p)
        define ps where "ps = pairs p False"
        obtain r1 h1 where s1: "add_path_edges_st graph ps eg h = (r1, h1)"
          by (cases "add_path_edges_st graph ps eg h")
        from add_path_edges_st_agrees [OF assms(1), of h ps] s1 have
          i1: "only_changes eg h h1"
          "r1 = no_value (add_path_edges (deref h graph) ps (deref h eg))"
          "\<forall>r'. add_path_edges (deref h graph) ps (deref h eg) = Inr r' \<longrightarrow> deref h1 eg = r'"
          by simp_all
        show ?thesis
        proof (cases "add_path_edges (deref h graph) ps (deref h eg)")
          case (Inl e)
          then have "r1 = Inl e" using i1(2) by (simp add: no_value_def)
          with Inl s1 i1(1) False Inr Some show ?thesis
            by (simp add: uv ps_def [symmetric] no_value_def)
        next
          case (Inr eg1)
          note a = Inr
          then have r1: "r1 = Inr ()" using i1(2) by (simp add: no_value_def)
          have d1: "deref h1 eg = eg1" using i1(3) a by simp
          have g1: "deref h1 graph = deref h graph" "deref h1 odd_ref = deref h odd_ref"
            using i1(1) assms by (simp_all add: deref_only_changes)
          have st: "add_matching_st graph odd_ref (uv # ms) eg h =
                    add_matching_st graph odd_ref ms eg h1"
            using False \<open>get_edge (deref h odd_ref) u v = Inr edge\<close> Some s1 r1
            by (simp add: uv ps_def [symmetric])
          have pu: "add_matching (deref h graph) (deref h odd_ref) (uv # ms) (deref h eg) =
                    add_matching (deref h1 graph) (deref h1 odd_ref) ms (deref h1 eg)"
            using False \<open>get_edge (deref h odd_ref) u v = Inr edge\<close> Some a
            by (simp add: uv ps_def [symmetric] g1 d1)
          have ih: "only_changes eg h1 (snd (add_matching_st graph odd_ref ms eg h1))"
            "fst (add_matching_st graph odd_ref ms eg h1) =
               no_value (add_matching (deref h1 graph) (deref h1 odd_ref) ms (deref h1 eg))"
            "\<forall>r'. add_matching (deref h1 graph) (deref h1 odd_ref) ms (deref h1 eg) = Inr r' \<longrightarrow>
                deref (snd (add_matching_st graph odd_ref ms eg h1)) eg = r'"
            using Cons.IH [of h1] by simp_all
          have "only_changes eg h (snd (add_matching_st graph odd_ref ms eg h1))"
            using i1(1) ih(1) by (rule only_changes_trans)
          with ih(2,3) show ?thesis unfolding st pu by simp
        qed
      qed
    qed
  qed
qed

lemma alloc_facts:
  "alloc g h = (r, h1) \<Longrightarrow>
   r = next_ref h \<and> next_ref h1 = Suc (next_ref h) \<and> deref h1 r = g \<and>
   (\<forall>x. x \<noteq> r \<longrightarrow> objects h1 x = objects h x)"
  by (auto simp: alloc_def deref_def)

lemma odd_graph_st_agrees:
  assumes "graph < next_ref h" and "odd_graph_st graph h = (r, h2)"
  shows "next_ref h2 = Suc (next_ref h) \<and> (\<forall>x < next_ref h. objects h2 x = objects h x) \<and>
         (case odd_graph (deref h graph) of
            Inl e \<Rightarrow> r = Inl e
          | Inr odd_gr \<Rightarrow> r = Inr (next_ref h) \<and> deref h2 (next_ref h) = odd_gr)"
proof -
  obtain result h1 where a: "alloc empty_graph h = (result, h1)"
    by (cases "alloc empty_graph h")
  have af: "result = next_ref h" "next_ref h1 = Suc (next_ref h)"
    "deref h1 result = empty_graph" "\<forall>x. x \<noteq> result \<longrightarrow> objects h1 x = objects h x"
    using alloc_facts [OF a] by blast+
  have res: "result = next_ref h" by (rule af(1))
  have ne: "graph \<noteq> result" using assms(1) res by simp
  have g1: "deref h1 graph = deref h graph"
    using af(4) ne by (simp add: deref_def)
  define g where "g = deref h graph"
  define ns where "ns = odd_nodes_of g"
  obtain r1 h' where o: "odd_outer_st graph ns ns result h1 = (r1, h')"
    by (cases "odd_outer_st graph ns ns result h1")
  from odd_outer_st_agrees [OF ne, of h1 ns ns] o have
    i: "only_changes result h1 h'"
    "r1 = no_value (odd_outer (deref h1 graph) ns ns (deref h1 result))"
    "\<forall>r'. odd_outer (deref h1 graph) ns ns (deref h1 result) = Inr r' \<longrightarrow> deref h' result = r'"
    by simp_all
  have e1: "deref h1 result = empty_graph" by (rule af(3))
  have og: "odd_outer (deref h1 graph) ns ns (deref h1 result) = odd_graph g"
    by (simp add: g1 e1 odd_graph_def Let_def ns_def g_def)
  have st: "odd_graph_st graph h =
            (case r1 of Inl e \<Rightarrow> (Inl e, h') | Inr x \<Rightarrow> (Inr result, h'))"
    using a o by (simp add: odd_graph_st_def Let_def g1 g_def [symmetric] ns_def [symmetric]
        split: sum.splits)
  have h2: "h2 = h'" using st assms(2) by (auto split: sum.splits)
  have nr: "next_ref h' = Suc (next_ref h)" using i(1) af(2) by (simp add: only_changes_def)
  have fr: "\<forall>x < next_ref h. objects h' x = objects h x"
    using i(1) af(4) res by (simp add: only_changes_def)
  have val: "case odd_graph g of
            Inl e \<Rightarrow> r = Inl e
          | Inr odd_gr \<Rightarrow> r = Inr (next_ref h) \<and> deref h' (next_ref h) = odd_gr"
  proof (cases "odd_graph g")
    case (Inl e)
    with i(2) og have "r1 = Inl e" by (simp add: no_value_def)
    with st assms(2) Inl show ?thesis by simp
  next
    case (Inr odd_gr)
    with i(2) og have "r1 = Inr ()" by (simp add: no_value_def)
    moreover have "deref h' result = odd_gr" using i(3) og Inr by simp
    ultimately show ?thesis using st assms(2) Inr res by simp
  qed
  from nr fr val show ?thesis unfolding h2 g_def by blast
qed

lemma chinese_postman_path_st_agrees:
  assumes gr: "graph < next_ref h"
    and run: "chinese_postman_path_st graph matching circuit h = (r, h')"
  shows "(\<forall>x < next_ref h. objects h' x = objects h x) \<and>
         (case chinese_postman_path (deref h graph) matching circuit of
            Inl e \<Rightarrow> r = Inl e
          | Inr (eulerian_graph, nodes_seq) \<Rightarrow>
              r = Inr (Suc (next_ref h), nodes_seq) \<and>
              deref h' (Suc (next_ref h)) = eulerian_graph)"
proof -
  define g where "g = deref h graph"
  obtain r1 h1 where o: "odd_graph_st graph h = (r1, h1)" by (cases "odd_graph_st graph h")
  note i1 = odd_graph_st_agrees [OF gr o]
  have n1: "next_ref h1 = Suc (next_ref h)" and f1: "\<forall>x < next_ref h. objects h1 x = objects h x"
    using i1 by simp_all
  show ?thesis
  proof (cases "odd_graph g")
    case (Inl e)
    with i1 have "r1 = Inl e" by (simp add: g_def)
    with o run have "r = Inl e" "h' = h1" by (simp_all add: chinese_postman_path_st_def)
    with f1 Inl show ?thesis
      by (simp add: chinese_postman_path_def eulerian_graph_of_def g_def)
  next
    case (Inr og)
    with i1 have r1: "r1 = Inr (next_ref h)" and d1: "deref h1 (next_ref h) = og"
      by (simp_all add: g_def)
    have g1: "deref h1 graph = g" using f1 gr by (simp add: deref_def g_def)
    obtain eg h2 where a: "alloc g h1 = (eg, h2)" by (cases "alloc g h1")
    have af: "eg = next_ref h1" "next_ref h2 = Suc (next_ref h1)"
      "deref h2 eg = g" "\<forall>x. x \<noteq> eg \<longrightarrow> objects h2 x = objects h1 x"
      using alloc_facts [OF a] by blast+
    have egr: "eg = Suc (next_ref h)" using af(1) n1 by simp
    have ne: "graph \<noteq> eg" "next_ref h \<noteq> eg" using gr egr by simp_all
    have d2: "deref h2 graph = g" "deref h2 (next_ref h) = og"
      using af(4) ne g1 d1 by (simp_all add: deref_def)
    have d2e: "deref h2 eg = g" by (rule af(3))
    have f2: "\<forall>x < next_ref h. objects h2 x = objects h x" using af(4) f1 egr by simp
    obtain r3 h3 where m: "add_matching_st graph (next_ref h) matching eg h2 = (r3, h3)"
      by (cases "add_matching_st graph (next_ref h) matching eg h2")
    from add_matching_st_agrees [OF ne, of h2 matching] m have
      i3: "only_changes eg h2 h3"
      "r3 = no_value (add_matching g og matching g)"
      "\<forall>r'. add_matching g og matching g = Inr r' \<longrightarrow> deref h3 eg = r'"
      by (simp_all add: d2 d2e)
    have f3: "\<forall>x < next_ref h. objects h3 x = objects h x"
      using i3(1) f2 egr by (simp add: only_changes_def)
    have ego: "eulerian_graph_of g matching = add_matching g og matching g"
      by (simp add: eulerian_graph_of_def Inr)
    have st: "chinese_postman_path_st graph matching circuit h =
         (case r3 of
            Inl e \<Rightarrow> (Inl e, h3)
          | Inr x \<Rightarrow>
              (case is_eulerian (deref h3 eg) of
                 Inl e \<Rightarrow> (Inl e, h3)
               | Inr False \<Rightarrow> (Inl NetworkXError, h3)
               | Inr True \<Rightarrow>
                   (case circuit of
                      [] \<Rightarrow> (Inl IndexError, h3)
                    | first # x \<Rightarrow> (Inr (eg, map fst circuit @ [fst first]), h3))))"
      using o r1 a m by (simp add: chinese_postman_path_st_def g1)
    have hh: "h' = h3" using st run by (auto split: sum.splits bool.splits list.splits)
    show ?thesis
    proof (cases "add_matching g og matching g")
      case (Inl e)
      with i3(2) have "r3 = Inl e" by (simp add: no_value_def)
      with st run have "r = Inl e" by simp
      with f3 hh Inl ego show ?thesis
        by (simp add: chinese_postman_path_def g_def [symmetric])
    next
      case (Inr eg_val)
      with i3(2) have r3: "r3 = Inr ()" by (simp add: no_value_def)
      have d3: "deref h3 eg = eg_val" using i3(3) Inr by simp
      have "r = (case chinese_postman_path g matching circuit of
                   Inl e \<Rightarrow> Inl e
                 | Inr (eulerian_graph, nodes_seq) \<Rightarrow> Inr (eg, nodes_seq))"
        using st run r3
        by (auto simp: chinese_postman_path_def ego Inr d3 split: sum.splits bool.splits list.splits)
      moreover have "\<forall>x ns. chinese_postman_path g matching circuit = Inr (x, ns) \<longrightarrow> x = eg_val"
        by (auto simp: chinese_postman_path_def ego Inr split: sum.splits bool.splits list.splits)
      ultimately show ?thesis
        using f3 hh d3 egr by (auto simp: g_def [symmetric] split: sum.splits)
    qed
  qed
qed

text \<open>
  Claim C9: \<open>chinese_postman_path\<close> leaves the base graph unchanged. Whatever the
  matching and the circuit the library returns, and also when the call raises, the object
  \<open>graph\<close> refers to is after the call the object it was before: the same nodes with the
  same attributes and the same edges with the same weights and ids. So is every other
  object that existed before the call. The multigraph the call returns is an object made
  during the call, so it is not the base graph; by \<open>chinese_postman_path_st_agrees\<close> it
  holds the value \<open>chinese_postman_path\<close> computes. That \<open>nx.MultiGraph(graph)\<close> makes
  a new object with attribute dictionaries of its own is networkx's behaviour.
\<close>

theorem base_graph_unchanged:
  assumes "graph < next_ref h"
  shows "objects (snd (chinese_postman_path_st graph matching circuit h)) graph = objects h graph \<and>
         (\<forall>x < next_ref h.
            objects (snd (chinese_postman_path_st graph matching circuit h)) x = objects h x) \<and>
         (\<forall>eulerian_graph nodes_seq.
            fst (chinese_postman_path_st graph matching circuit h) = Inr (eulerian_graph, nodes_seq) \<longrightarrow>
            next_ref h \<le> eulerian_graph \<and> eulerian_graph \<noteq> graph)"
proof -
  obtain r h' where run: "chinese_postman_path_st graph matching circuit h = (r, h')"
    by (cases "chinese_postman_path_st graph matching circuit h")
  note a = chinese_postman_path_st_agrees [OF assms run]
  have f: "\<forall>x < next_ref h. objects h' x = objects h x" using a by simp
  have fresh: "next_ref h \<le> eg \<and> eg \<noteq> graph" if "r = Inr (eg, ns)" for eg ns
  proof -
    from a that have "eg = Suc (next_ref h)"
      by (cases "chinese_postman_path (deref h graph) matching circuit") auto
    with assms show ?thesis by simp
  qed
  from f fresh assms show ?thesis by (simp add: run)
qed

subsection \<open>The theorems at concrete graphs\<close>

lemma connected_shortcuts: "wf_graph shortcuts \<and> connected shortcuts"
proof -
  have wf: "wf_graph shortcuts" by code_simp
  have ne: "nodes shortcuts \<noteq> []" by code_simp
  have "is_connected shortcuts = Inr True" by code_simp
  with is_connected_iff [OF wf ne] wf show ?thesis by simp
qed

theorem augmented_degrees_even_witness:
  "wf_graph shortcuts \<and> connected shortcuts \<and>
   matching_from_library shortcuts shortcuts_matching \<and>
   (\<exists>eulerian_graph. eulerian_graph_of shortcuts shortcuts_matching = Inr eulerian_graph \<and>
      nodes eulerian_graph = nodes shortcuts \<and>
      (\<forall>n \<in> set (nodes eulerian_graph). even (degree eulerian_graph n))) \<and>
   eulerian_graph_of shortcuts shortcuts_matching = Inr shortcuts_augmented"
proof -
  have wf: "wf_graph shortcuts" and con: "connected shortcuts"
    using connected_shortcuts by simp_all
  have lib: "matching_from_library shortcuts shortcuts_matching" by code_simp
  have eg: "eulerian_graph_of shortcuts shortcuts_matching = Inr shortcuts_augmented" by code_simp
  show ?thesis
    using augmented_degrees_even [OF wf con lib] wf con lib eg by blast
qed

theorem circuit_traverses_every_edge_once_witness:
  "wf_graph shortcuts \<and> connected shortcuts \<and> edges shortcuts \<noteq> [] \<and>
   matching_from_library shortcuts shortcuts_matching \<and>
   circuit_from_library shortcuts shortcuts_matching shortcuts_circuit \<and>
   (\<exists>eulerian_graph nodes_seq.
       chinese_postman_path shortcuts shortcuts_matching shortcuts_circuit =
         Inr (eulerian_graph, nodes_seq) \<and>
       eulerian_graph_of shortcuts shortcuts_matching = Inr eulerian_graph \<and>
       hd nodes_seq = last nodes_seq \<and>
       length (pairs nodes_seq False) = length (edges eulerian_graph) \<and>
       mset (map undirected (pairs nodes_seq False)) =
         mset (map undirected (edge_ends eulerian_graph))) \<and>
   chinese_postman_path shortcuts shortcuts_matching shortcuts_circuit =
     Inr (shortcuts_augmented, [1, 2, 1, 4, 3, 4, 2, 3, 5, 1])"
proof -
  have wf: "wf_graph shortcuts" and con: "connected shortcuts"
    using connected_shortcuts by simp_all
  have ne: "edges shortcuts \<noteq> []" by code_simp
  have lib: "matching_from_library shortcuts shortcuts_matching" by code_simp
  have cir: "circuit_from_library shortcuts shortcuts_matching shortcuts_circuit" by code_simp
  have res: "chinese_postman_path shortcuts shortcuts_matching shortcuts_circuit =
     Inr (shortcuts_augmented, [1, 2, 1, 4, 3, 4, 2, 3, 5, 1])" by code_simp
  show ?thesis
    using circuit_traverses_every_edge_once [OF wf con ne lib cir] wf con ne lib cir res
    by blast
qed

text \<open>
  Claim C5, as stated: the totals are equal only if the base graph has no odd-degree
  vertex. For one edge of weight 0 both ends have odd degree, the edge is duplicated, and
  the total stays 0.
\<close>

theorem zero_weight_edge_duplicated:
  "wf_graph zero_edge \<and> connected zero_edge \<and> edges zero_edge \<noteq> [] \<and>
   matching_from_library zero_edge [(1, 2), (2, 1)] \<and>
   odd_nodes_of zero_edge = [1, 2] \<and>
   eulerian_graph_of zero_edge [(1, 2), (2, 1)] = Inr (plain_graph [1, 2] [(1, 2, 0), (2, 1, 0)]) \<and>
   edge_sum (plain_graph [1, 2] [(1, 2, 0), (2, 1, 0)]) = edge_sum zero_edge"
proof -
  have wf: "wf_graph zero_edge" by code_simp
  have ne: "nodes zero_edge \<noteq> []" by code_simp
  have "is_connected zero_edge = Inr True" by code_simp
  with is_connected_iff [OF wf ne] have con: "connected zero_edge" by simp
  have rest: "edges zero_edge \<noteq> [] \<and>
   matching_from_library zero_edge [(1, 2), (2, 1)] \<and>
   odd_nodes_of zero_edge = [1, 2] \<and>
   eulerian_graph_of zero_edge [(1, 2), (2, 1)] = Inr (plain_graph [1, 2] [(1, 2, 0), (2, 1, 0)]) \<and>
   edge_sum (plain_graph [1, 2] [(1, 2, 0), (2, 1, 0)]) = edge_sum zero_edge"
    by code_simp
  from wf con rest show ?thesis by simp
qed

theorem augmented_weight_witness:
  "wf_graph shortcuts \<and> connected shortcuts \<and>
   matching_from_library shortcuts shortcuts_matching \<and>
   list_all (\<lambda>(a, b, d). 0 < weight d) (edges shortcuts) \<and>
   (\<exists>eulerian_graph. eulerian_graph_of shortcuts shortcuts_matching = Inr eulerian_graph \<and>
      edge_sum shortcuts \<le> edge_sum eulerian_graph \<and>
      edge_sum eulerian_graph \<noteq> edge_sum shortcuts \<and> odd_nodes_of shortcuts \<noteq> []) \<and>
   edge_sum shortcuts = 43 \<and> edge_sum shortcuts_augmented = 63"
proof -
  have wf: "wf_graph shortcuts" and con: "connected shortcuts"
    using connected_shortcuts by simp_all
  have lib: "matching_from_library shortcuts shortcuts_matching" by code_simp
  have pos: "list_all (\<lambda>(a, b, d). 0 < weight d) (edges shortcuts)" by code_simp
  then have pos': "\<forall>(a, b, d) \<in> set (edges shortcuts). 0 < weight d" by (simp add: list_all_iff)
  then have nonneg: "\<forall>(a, b, d) \<in> set (edges shortcuts). 0 \<le> weight d" by fastforce
  have odd: "odd_nodes_of shortcuts \<noteq> []" by code_simp
  have sums: "edge_sum shortcuts = 43 \<and> edge_sum shortcuts_augmented = 63" by code_simp
  from augmented_weight [OF wf con lib nonneg] obtain eg where
    eg: "eulerian_graph_of shortcuts shortcuts_matching = Inr eg" "edge_sum shortcuts \<le> edge_sum eg"
    "(\<forall>(a, b, d) \<in> set (edges shortcuts). 0 < weight d) \<longrightarrow>
       (edge_sum eg = edge_sum shortcuts \<longleftrightarrow> odd_nodes_of shortcuts = [])" by blast
  from eg(3) pos' odd have "edge_sum eg \<noteq> edge_sum shortcuts" by blast
  with eg(1,2) odd wf con lib pos sums show ?thesis by blast
qed

theorem base_graph_unchanged_witness:
  "0 < next_ref (one_graph single_edge) \<and>
   objects (snd (chinese_postman_path_st 0 [(1, 2), (2, 1)] [(1, 2), (2, 1)]
                   (one_graph single_edge))) 0 = Some single_edge \<and>
   fst (chinese_postman_path_st 0 [(1, 2), (2, 1)] [(1, 2), (2, 1)] (one_graph single_edge)) =
     Inr (2, [1, 2, 1]) \<and>
   deref (snd (chinese_postman_path_st 0 [(1, 2), (2, 1)] [(1, 2), (2, 1)]
                 (one_graph single_edge))) 2 = plain_graph [1, 2] [(1, 2, 5), (2, 1, 5)]"
proof -
  have a: "0 < next_ref (one_graph single_edge)" by (simp add: one_graph_def)
  have b: "objects (one_graph single_edge) 0 = Some single_edge" by (simp add: one_graph_def)
  have r: "fst (chinese_postman_path_st 0 [(1, 2), (2, 1)] [(1, 2), (2, 1)]
                  (one_graph single_edge)) = Inr (2, [1, 2, 1])"
    by code_simp
  have d: "deref (snd (chinese_postman_path_st 0 [(1, 2), (2, 1)] [(1, 2), (2, 1)]
                 (one_graph single_edge))) 2 = plain_graph [1, 2] [(1, 2, 5), (2, 1, 5)]"
    by code_simp
  from base_graph_unchanged [OF a, of "[(1, 2), (2, 1)]" "[(1, 2), (2, 1)]"] a b r d
  show ?thesis by simp
qed

end
